theory Spec2Isabelle
  imports Complex_Main "HOL-Library.Word" "HOL-Library.Log_Nat" "HOL-Library.Multiset"
begin

section \<open>Sortition of the pos33 consensus (plugin/consensus/pos33/sortition.go)\<close>

subsection \<open>Go values\<close>

text \<open>
  Go's fixed-width integers are words; \<open>int\<close> is the 64-bit \<open>int\<close> of the platforms the
  node runs on. Comparisons of signed integers read the words with \<open>sint\<close>. A byte slice is
  a list of bytes (a nil slice and an empty one are both \<open>[]\<close>, as Go's \<open>string(b)\<close> and
  \<open>len(b)\<close> see them).
\<close>

type_synonym byte = "8 word"
type_synonym int32 = "32 word"
type_synonym int64 = "64 word"
type_synonym goint = "64 word"

text \<open>
  A \<open>float64\<close>: a finite value (a rational; the model admits every rational, the machine
  only those with a 53-bit significand), an infinity, or NaN.
\<close>

datatype float64 = Finite64 rat | PosInf64 | NegInf64 | NaN64

text \<open>A Go call returns a value or panics.\<close>

datatype 'a outcome = Panic | Ret 'a

subsection \<open>\<open>fmt.Sprintf("%x+%d+%d", ...)\<close>\<close>

definition hexdigit :: "nat \<Rightarrow> char" where
  "hexdigit d = ''0123456789abcdef'' ! d"

text \<open>\<open>%x\<close> of a byte slice: two lowercase hexadecimal digits per byte.\<close>

definition fmt_x :: "byte list \<Rightarrow> string" where
  "fmt_x bs = concat (map (\<lambda>b. [hexdigit (unat b div 16), hexdigit (unat b mod 16)]) bs)"

fun digits10 :: "nat \<Rightarrow> string" where
  "digits10 n =
     (if n < 10 then [''0123456789'' ! n] else digits10 (n div 10) @ [''0123456789'' ! (n mod 10)])"

text \<open>\<open>%d\<close> of a signed integer: decimal digits, a minus sign first when negative.\<close>

definition fmt_d :: "int \<Rightarrow> string" where
  "fmt_d i = (if i < 0 then CHR ''-'' # digits10 (nat (- i)) else digits10 (nat i))"

definition Sprintf_x_d_d :: "byte list \<Rightarrow> int \<Rightarrow> int \<Rightarrow> string" where
  "Sprintf_x_d_d v i k = fmt_x v @ ''+'' @ fmt_d i @ ''+'' @ fmt_d k"

text \<open>\<open>[]byte(data)\<close>: the bytes of the (ASCII) string.\<close>

definition bytes_of :: "string \<Rightarrow> byte list" where
  "bytes_of s = map (\<lambda>c. word_of_nat (of_char c)) s"

subsection \<open>\<open>math/big\<close>: the part of \<open>big.Float\<close> the threshold test uses\<close>

text \<open>
  A \<open>big.Float\<close> is a precision (in bits of significand; 0 for a fresh \<open>new(big.Float)\<close>)
  and a value, finite or infinite; the rounding mode is always the default, to nearest
  even. Results of operations are the exact results rounded to the precision of the
  receiver. Signed zeros and the exponent range (32 bits) are left out: no comparison
  depends on them here.
\<close>

datatype fval = Finite rat | Infinite bool

record Float =
  prec :: nat
  fv :: fval

definition round_half_even :: "rat \<Rightarrow> int" where
  "round_half_even s =
     (let f = \<lfloor>s\<rfloor>; r = s - of_int f
      in if r < 1 / 2 then f else if 1 / 2 < r then f + 1 else if even f then f else f + 1)"

text \<open>The binary exponent \<open>e\<close> of a non-zero rational: \<open>2 ^ (e - 1) \<le> \<bar>q\<bar> < 2 ^ e\<close>.\<close>

definition binexp :: "rat \<Rightarrow> int" where
  "binexp q =
     (let (a, b) = quotient_of \<bar>q\<bar>; d = bitlen a - bitlen b
      in if \<bar>q\<bar> < 2 powi d then d else d + 1)"

text \<open>Rounding to \<open>p\<close> bits of significand, to nearest even.\<close>

definition round_prec :: "nat \<Rightarrow> rat \<Rightarrow> rat" where
  "round_prec p q =
     (if q = 0 then 0
      else let ulp = 2 powi (binexp q - int p) in of_int (round_half_even (q / ulp)) * ulp)"

definition new_Float :: Float where
  "new_Float = \<lparr>prec = 0, fv = Finite 0\<rparr>"

text \<open>
  \<open>big.NewFloat(x)\<close>: precision 53, the value of \<open>x\<close> exactly; it panics (ErrNaN) when
  \<open>x\<close> is NaN.
\<close>

definition NewFloat :: "float64 \<Rightarrow> Float outcome" where
  "NewFloat x =
     (case x of
        NaN64 \<Rightarrow> Panic
      | Finite64 q \<Rightarrow> Ret \<lparr>prec = 53, fv = Finite q\<rparr>
      | PosInf64 \<Rightarrow> Ret \<lparr>prec = 53, fv = Infinite False\<rparr>
      | NegInf64 \<Rightarrow> Ret \<lparr>prec = 53, fv = Infinite True\<rparr>)"

text \<open>
  \<open>z.SetInt(x)\<close>: a receiver of precision 0 takes the larger of \<open>x.BitLen()\<close> and 64;
  the value is \<open>x\<close> rounded to the receiver's precision.
\<close>

definition SetInt :: "Float \<Rightarrow> int \<Rightarrow> Float" where
  "SetInt z x =
     (let p = (if prec z = 0 then max (nat (bitlen \<bar>x\<bar>)) 64 else prec z)
      in \<lparr>prec = p, fv = Finite (round_prec p (of_int x))\<rparr>)"

text \<open>
  \<open>z.Quo(x, y)\<close>: a receiver of precision 0 takes the larger of the operands'
  precisions; the value is the rounded quotient. 0/0 and Inf/Inf panic (ErrNaN).
\<close>

definition Quo :: "Float \<Rightarrow> Float \<Rightarrow> Float \<Rightarrow> Float outcome" where
  "Quo z x y =
     (let p = (if prec z = 0 then max (prec x) (prec y) else prec z)
      in case (fv x, fv y) of
           (Finite a, Finite b) \<Rightarrow>
             if b = 0 then (if a = 0 then Panic else Ret \<lparr>prec = p, fv = Infinite (a < 0)\<rparr>)
             else Ret \<lparr>prec = p, fv = Finite (round_prec p (a / b))\<rparr>
         | (Finite a, Infinite s) \<Rightarrow> Ret \<lparr>prec = p, fv = Finite 0\<rparr>
         | (Infinite s, Finite b) \<Rightarrow> Ret \<lparr>prec = p, fv = Infinite (s \<noteq> (b < 0))\<rparr>
         | (Infinite s, Infinite t) \<Rightarrow> Panic)"

text \<open>\<open>x.Cmp(y)\<close>: -1, 0 or +1, comparing the exact values.\<close>

definition Cmp :: "Float \<Rightarrow> Float \<Rightarrow> int" where
  "Cmp x y =
     (case (fv x, fv y) of
        (Finite a, Finite b) \<Rightarrow> (if a < b then - 1 else if b < a then 1 else 0)
      | (Finite a, Infinite t) \<Rightarrow> (if t then 1 else - 1)
      | (Infinite s, Finite b) \<Rightarrow> (if s then - 1 else 1)
      | (Infinite s, Infinite t) \<Rightarrow> (if s = t then 0 else if s then - 1 else 1))"

text \<open>
  The package-level values: \<open>max = big1.Lsh(big1, 256)\<close> and
  \<open>fmax = big.NewFloat(0).SetInt(max)\<close> (\<open>big.NewFloat(0)\<close> is the zero of precision 53).
\<close>

definition max_big :: int where
  "max_big = 2 ^ 256"

definition fmax :: Float where
  "fmax = SetInt \<lparr>prec = 53, fv = Finite 0\<rparr> max_big"

subsection \<open>Messages (plugin/dapp/pos33/types)\<close>

record VrfInput =
  Seed :: "byte list"
  Height :: int64
  Round :: int32
  Ty :: int32

record HashProof =
  Input :: "VrfInput option"
  VrfHash :: "byte list"
  VrfProof :: "byte list"
  Pubkey :: "byte list"

record SortHash =
  Hash :: "byte list"
  Index :: int64
  Num :: int32

record Pos33SortMsg =
  SortHash :: "SortHash option"
  Proof :: "HashProof option"

subsection \<open>The libraries and the node's collaborators\<close>

text \<open>
  The functions of other packages that sortition.go calls, and whose results the claims
  do not depend on, are parameters of the model: SHA-256 (\<open>crypto.Sha256\<close>), the protobuf
  encoding (\<open>types.Encode\<close>), the secp256k1 VRF (\<open>Evaluate\<close> with the key made from the
  private key's bytes, \<open>ParsePubKey\<close>, \<open>ProofToHash\<close>), the public key of a private key
  (\<open>priv.PubKey().Bytes()\<close>), \<open>address.PubKeyToAddr(ethID, _)\<close> and the constant
  \<open>pt.Pos33SortBlocks\<close>.
\<close>

type_synonym pubkey = "int \<times> int"

record lib =
  Sha256 :: "byte list \<Rightarrow> byte list"
  Encode :: "VrfInput \<Rightarrow> byte list"
  Evaluate :: "byte list \<Rightarrow> byte list \<Rightarrow> byte list \<times> byte list"
  PubKeyBytes :: "byte list \<Rightarrow> byte list"
  ParsePubKey :: "byte list \<Rightarrow> pubkey option"
  ProofToHash :: "pubkey \<Rightarrow> byte list \<Rightarrow> byte list \<Rightarrow> byte list option"
  PubKeyToAddr :: "byte list \<Rightarrow> string"
  Pos33SortBlocks :: int64

text \<open>
  The node: its address, the ticket ledger (\<open>queryTicketCount\<close>), the private key
  provider (\<open>getPriv\<close>, the key as its bytes, \<open>None\<close> for nil) and the difficulty oracle
  (\<open>getDiff\<close>).
\<close>

record node =
  myAddr :: string
  queryTicketCount :: "string \<Rightarrow> int64 \<Rightarrow> int64"
  getPriv :: "byte list option"
  getDiff :: "int64 \<Rightarrow> goint \<Rightarrow> float64"

subsection \<open>The ticket hash and the threshold test\<close>

definition hash2 :: "lib \<Rightarrow> byte list \<Rightarrow> byte list" where
  "hash2 L data = Sha256 L (Sha256 L data)"

text \<open>\<open>new(big.Int).SetBytes(buf)\<close>: the unsigned integer of the bytes, most significant first.\<close>

definition be_int :: "byte list \<Rightarrow> int" where
  "be_int h = foldl (\<lambda>acc b. acc * 256 + uint b) 0 h"

text \<open>
  \<open>difficulty.HashToBig(buf)\<close>, the helper of the chain33 library that \<open>sortF\<close> and
  \<open>verifySort\<close> call: it reverses \<open>buf\<close> in place (it swaps \<open>buf[i]\<close> and \<open>buf[len-1-i]\<close>)
  and returns \<open>new(big.Int).SetBytes(buf)\<close>. Because it overwrites its argument, the
  callers hand it a copy of the hash (\<open>tmpHash\<close>) and keep the hash itself for the message.
\<close>

definition HashToBig :: "byte list \<Rightarrow> int" where
  "HashToBig buf = be_int (rev buf)"

text \<open>
  The test both \<open>sortF\<close> and \<open>verifySort\<close> write out:
  \<open>y := difficulty.HashToBig(tmpHash); z := new(big.Float).SetInt(y);
  new(big.Float).Quo(z, fmax).Cmp(big.NewFloat(diff)) > 0\<close>,
  with \<open>tmpHash\<close> a copy of the hash. \<open>Ret True\<close>: the ticket is over the difficulty.
\<close>

definition overDiff :: "byte list \<Rightarrow> float64 \<Rightarrow> bool outcome" where
  "overDiff hash diff =
     (let tmpHash = hash;
          y = HashToBig tmpHash;
          z = SetInt new_Float y
      in case Quo new_Float z fmax of
           Panic \<Rightarrow> Panic
         | Ret q \<Rightarrow> (case NewFloat diff of Panic \<Rightarrow> Panic | Ret d \<Rightarrow> Ret (0 < Cmp q d)))"

definition sortF :: "lib \<Rightarrow> byte list \<Rightarrow> goint \<Rightarrow> goint \<Rightarrow> float64 \<Rightarrow> HashProof option
    \<Rightarrow> Pos33SortMsg option outcome" where
  "sortF L vrfHash index num diff proof =
     (let data = Sprintf_x_d_d vrfHash (sint index) (sint num);
          hash = hash2 L (bytes_of data)
      in case overDiff hash diff of
           Panic \<Rightarrow> Panic
         | Ret True \<Rightarrow> Ret None
         | Ret False \<Rightarrow>
             Ret (Some \<lparr>SortHash = Some \<lparr>Hash = hash, Index = index, Num = ucast num\<rparr>,
                        Proof = proof\<rparr>))"

subsection \<open>The scheduler: \<open>runSortition\<close> and \<open>doSort\<close>\<close>

text \<open>
  \<open>runSortition\<close> starts 8 workers; each takes a \<open>sortArg\<close> from \<open>n.sortCh\<close>, calls
  \<open>sortF\<close> and sends the result to the channel \<open>ch\<close> of the \<open>doSort\<close> call that queued
  the argument. \<open>doSort\<close> queues the indices 0, 1, ... in order from a feeder goroutine and
  receives \<open>count\<close> results from \<open>ch\<close>, keeping the non-nil ones in the order they arrive.
  Which worker is served first is the scheduler's choice, so one call is a step relation
  over its states \<open>(sent, busy, msgs, j)\<close>: \<open>sent\<close> indices have been taken by workers,
  \<open>busy\<close> are the indices whose result has not been received yet, \<open>msgs\<close> and \<open>j\<close> are the
  variables of the receiving loop. A worker whose \<open>sortF\<close> panics delivers nothing.
\<close>

definition workers :: nat where
  "workers = 8"

inductive pool :: "lib \<Rightarrow> byte list \<Rightarrow> goint \<Rightarrow> goint \<Rightarrow> float64 \<Rightarrow> HashProof option
    \<Rightarrow> nat \<Rightarrow> nat list \<Rightarrow> Pos33SortMsg list \<Rightarrow> nat \<Rightarrow> bool"
  for L :: lib and vrfHash :: "byte list" and count :: goint and num :: goint
    and diff :: float64 and hproof :: "HashProof option"
where
  start: "pool L vrfHash count num diff hproof 0 [] [] 0"
| take: "pool L vrfHash count num diff hproof sent busy msgs j \<Longrightarrow> int sent < sint count
    \<Longrightarrow> length busy < workers
    \<Longrightarrow> pool L vrfHash count num diff hproof (Suc sent) (busy @ [sent]) msgs j"
| lose: "pool L vrfHash count num diff hproof sent busy msgs j \<Longrightarrow> i \<in> set busy
    \<Longrightarrow> sortF L vrfHash (word_of_nat i) num diff hproof = Ret None
    \<Longrightarrow> pool L vrfHash count num diff hproof sent (remove1 i busy) msgs (Suc j)"
| win: "pool L vrfHash count num diff hproof sent busy msgs j \<Longrightarrow> i \<in> set busy
    \<Longrightarrow> sortF L vrfHash (word_of_nat i) num diff hproof = Ret (Some m)
    \<Longrightarrow> pool L vrfHash count num diff hproof sent (remove1 i busy) (msgs @ [m]) (Suc j)"

code_pred pool .

text \<open>
  \<open>doSort ... msgs\<close>: the call can return \<open>msgs\<close>, that is, the receiving loop
  \<open>for j < count\<close> can end with this list.
\<close>

definition doSort :: "lib \<Rightarrow> byte list \<Rightarrow> goint \<Rightarrow> goint \<Rightarrow> float64 \<Rightarrow> HashProof option
    \<Rightarrow> Pos33SortMsg list \<Rightarrow> bool" where
  "doSort L vrfHash count num diff proof msgs =
     (\<exists>sent busy j. pool L vrfHash count num diff proof sent busy msgs j \<and> \<not> int j < sint count)"
  for count

text \<open>The non-nil results of \<open>sortF\<close> over a list of indices, in the order of the list.\<close>

definition won :: "lib \<Rightarrow> byte list \<Rightarrow> goint \<Rightarrow> float64 \<Rightarrow> HashProof option \<Rightarrow> nat list
    \<Rightarrow> Pos33SortMsg list" where
  "won L vrfHash num diff proof is =
     concat (map (\<lambda>i. case sortF L vrfHash (word_of_nat i) num diff proof of
                         Ret (Some m) \<Rightarrow> [m] | _ \<Rightarrow> []) is)"

subsection \<open>The controller: \<open>committeeSort\<close>\<close>

definition calcuVrfHash :: "lib \<Rightarrow> VrfInput \<Rightarrow> byte list \<Rightarrow> byte list \<times> byte list" where
  "calcuVrfHash L input priv = (let in' = Encode L input in Evaluate L priv in')"

text \<open>The height at which \<open>committeeSort\<close> asks the ledger for its ticket count.\<close>

definition committeeSort_snapshot :: "int64 \<Rightarrow> int64" where
  "committeeSort_snapshot height = height - 10"

text \<open>
  \<open>committeeSort ... msgs\<close>: the call can return \<open>msgs\<close> (nil is \<open>[]\<close>). The debug line
  after \<open>doSort\<close> slices the producer's address, \<open>PubKeyToAddr(...)[:16]\<close>, which panics on
  an address shorter than 16 characters.
\<close>

definition committeeSort :: "lib \<Rightarrow> node \<Rightarrow> byte list \<Rightarrow> int64 \<Rightarrow> goint \<Rightarrow> goint
    \<Rightarrow> Pos33SortMsg list \<Rightarrow> bool" where
  "committeeSort L n seed height round ty msgs =
     (let count = queryTicketCount n (myAddr n) (committeeSort_snapshot height)
      in case getPriv n of
           None \<Rightarrow> msgs = []
         | Some priv \<Rightarrow>
             (let diff = getDiff n height round;
                  input = \<lparr>Seed = seed, Height = height, Round = ucast round, Ty = ucast ty\<rparr>;
                  (vrfHash, vrfProof) = calcuVrfHash L input priv;
                  proof = \<lparr>Input = Some input, VrfHash = vrfHash, VrfProof = vrfProof,
                           Pubkey = PubKeyBytes L priv\<rparr>
              in doSort L vrfHash count 0 diff (Some proof) msgs
                 \<and> 16 \<le> length (PubKeyToAddr L (Pubkey proof))))"
  for round

subsection \<open>The verifier: \<open>vrfVerify\<close> and \<open>verifySort\<close>\<close>

text \<open>
  Go errors: a value made by \<open>fmt.Errorf\<close> (its message), and the two sentinels
  \<open>pt.ErrVrfVerify\<close> and \<open>errDiff\<close>. \<open>None\<close> is the nil error.
\<close>

datatype error = Errorf string | ErrVrfVerify | errDiff

definition vrfVerify :: "lib \<Rightarrow> byte list \<Rightarrow> byte list \<Rightarrow> byte list \<Rightarrow> byte list
    \<Rightarrow> error option" where
  "vrfVerify L pub input proof hash =
     (case ParsePubKey L pub of
        None \<Rightarrow> Some ErrVrfVerify
      | Some pubKey \<Rightarrow>
          (case ProofToHash L pubKey input proof of
             None \<Rightarrow> Some ErrVrfVerify
           | Some vrfHash \<Rightarrow> if vrfHash \<noteq> hash then Some ErrVrfVerify else None))"

text \<open>The height at which \<open>verifySort\<close> asks the ledger for the claimant's ticket count.\<close>

definition verifySort_snapshot :: "lib \<Rightarrow> int64 \<Rightarrow> int64" where
  "verifySort_snapshot L height = height - Pos33SortBlocks L"

text \<open>
  The checks of \<open>verifySort\<close> after its first \<open>if\<close>. The debug line on a failed VRF check
  slices \<open>addr[:16]\<close>, which panics on an address shorter than 16 characters.
\<close>

definition verifySort_checks :: "lib \<Rightarrow> node \<Rightarrow> int64 \<Rightarrow> goint \<Rightarrow> byte list
    \<Rightarrow> Pos33SortMsg option \<Rightarrow> error option outcome" where
  "verifySort_checks L n height ty seed m =
     (case m of
        None \<Rightarrow> Ret (Some (Errorf ''verifySort error: sort msg is nil''))
      | Some msg \<Rightarrow>
     (case Proof msg of
        None \<Rightarrow> Ret (Some (Errorf ''verifySort error: sort msg is nil''))
      | Some pf \<Rightarrow>
     (case SortHash msg of
        None \<Rightarrow> Ret (Some (Errorf ''verifySort error: sort msg is nil''))
      | Some sh \<Rightarrow>
     (case Input pf of
        None \<Rightarrow> Ret (Some (Errorf ''verifySort error: sort msg is nil''))
      | Some inp \<Rightarrow>
     (let addr = PubKeyToAddr L (Pubkey pf);
          count = queryTicketCount n addr (verifySort_snapshot L height)
      in if sint count \<le> sint (Index sh)
         then Ret (Some (Errorf (''sort index '' @ fmt_d (sint (Index sh)) @ '' > ''
                 @ fmt_d (sint count) @ '' your count, height '' @ fmt_d (sint height))))
         else if Height inp \<noteq> height
         then Ret (Some (Errorf (''verifySort error, height NOT match: ''
                 @ fmt_d (sint (Height inp)) @ ''!='' @ fmt_d (sint height))))
         else if Seed inp \<noteq> seed
         then Ret (Some (Errorf ''verifySort error, seed NOT match''))
         else if Ty inp \<noteq> ucast ty
         then Ret (Some (Errorf ''verifySort error, step NOT match''))
         else
           (let round = Round inp;
                input = \<lparr>Seed = seed, Height = height, Round = round, Ty = ucast ty\<rparr>;
                in' = Encode L input
            in case vrfVerify L (Pubkey pf) in' (VrfProof pf) (VrfHash pf) of
                 Some err \<Rightarrow> if length addr < 16 then Panic else Ret (Some err)
               | None \<Rightarrow>
                   (let data = Sprintf_x_d_d (VrfHash pf) (sint (Index sh)) (sint (Num sh));
                        hash = hash2 L (bytes_of data)
                    in if hash \<noteq> Hash sh
                       then Ret (Some (Errorf ''sort hash error''))
                       else
                         (let diff = getDiff n height (scast round)
                          in case overDiff hash diff of
                               Panic \<Rightarrow> Panic
                             | Ret True \<Rightarrow> Ret (Some errDiff)
                             | Ret False \<Rightarrow> Ret None))))))))"

definition verifySort :: "lib \<Rightarrow> node \<Rightarrow> int64 \<Rightarrow> goint \<Rightarrow> byte list
    \<Rightarrow> Pos33SortMsg option \<Rightarrow> error option outcome" where
  "verifySort L n height ty seed m =
     (if sint height \<le> sint (Pos33SortBlocks L) then Ret None
      else verifySort_checks L n height ty seed m)"

subsection \<open>What the claims compare the code with\<close>

text \<open>The exact comparison \<open>r \<le> diff\<close> of a rational with a \<open>float64\<close>; nothing is \<open>\<le> NaN\<close>.\<close>

fun ratio_le :: "rat \<Rightarrow> float64 \<Rightarrow> bool" where
  "ratio_le r (Finite64 d) = (r \<le> d)"
| "ratio_le r PosInf64 = True"
| "ratio_le r NegInf64 = False"
| "ratio_le r NaN64 = False"

text \<open>
  The unsigned integer of a byte string read least significant byte first (little-endian),
  over the full width of the string.
\<close>

fun le_int :: "byte list \<Rightarrow> int" where
  "le_int [] = 0"
| "le_int (b # bs) = uint b + 256 * le_int bs"

text \<open>
  Reading the text of the ticket hash back. \<open>unhex\<close> reads lowercase hexadecimal text, two
  digits per byte and the high digit first; \<open>read_dec\<close> reads a decimal integer with an
  optional leading minus sign; \<open>canonical_dec\<close> holds of a decimal text with no leading zero
  and no \<open>-0\<close>.
\<close>

definition hexval :: "char \<Rightarrow> nat option" where
  "hexval c = map_of (zip ''0123456789abcdef'' [0..<16]) c"

fun unhex :: "string \<Rightarrow> byte list option" where
  "unhex [] = Some []"
| "unhex [c] = None"
| "unhex (c # d # cs) =
     (case hexval c of
        None \<Rightarrow> None
      | Some a \<Rightarrow>
          (case hexval d of
             None \<Rightarrow> None
           | Some b \<Rightarrow>
               (case unhex cs of
                  None \<Rightarrow> None
                | Some bs \<Rightarrow> Some (word_of_nat (16 * a + b) # bs))))"

definition digitval :: "char \<Rightarrow> nat option" where
  "digitval c = map_of (zip ''0123456789'' [0..<10]) c"

fun read_digits :: "nat \<Rightarrow> string \<Rightarrow> nat option" where
  "read_digits acc [] = Some acc"
| "read_digits acc (c # cs) =
     (case digitval c of None \<Rightarrow> None | Some d \<Rightarrow> read_digits (10 * acc + d) cs)"

definition read_dec :: "string \<Rightarrow> int option" where
  "read_dec s =
     (case s of
        [] \<Rightarrow> None
      | c # cs \<Rightarrow>
          if c = CHR ''-''
          then (if cs = [] then None else map_option (\<lambda>k. - int k) (read_digits 0 cs))
          else map_option int (read_digits 0 s))"

definition canonical_dec :: "string \<Rightarrow> bool" where
  "canonical_dec s =
     (case s of
        [] \<Rightarrow> False
      | c # cs \<Rightarrow>
          if c = CHR ''-'' then cs \<noteq> [] \<and> hd cs \<noteq> CHR ''0''
          else s = ''0'' \<or> c \<noteq> CHR ''0'')"

text \<open>
  UTF-8 of a text whose characters are the code points below 256: one byte for a code
  point below 128, otherwise the two bytes \<open>110xxxxx 10xxxxxx\<close>.
\<close>

definition utf8_char :: "char \<Rightarrow> byte list" where
  "utf8_char c =
     (let k = (of_char c :: nat)
      in if k < 128 then [word_of_nat k]
         else [word_of_nat (192 + k div 64), word_of_nat (128 + k mod 64)])"

definition utf8 :: "string \<Rightarrow> byte list" where
  "utf8 s = concat (map utf8_char s)"

text \<open>
  The VRF library is correct when a proof made by \<open>Evaluate\<close> verifies under the public
  key of the private key that made it.
\<close>

definition vrf_correct :: "lib \<Rightarrow> bool" where
  "vrf_correct L =
     (\<forall>priv input. \<exists>pubKey. ParsePubKey L (PubKeyBytes L priv) = Some pubKey
        \<and> ProofToHash L pubKey input (snd (Evaluate L priv input))
            = Some (fst (Evaluate L priv input)))"


subsection \<open>A small instance\<close>

text \<open>
  A library and a node on which the definitions can be run: a one-byte stand-in for the
  hash, a VRF whose proof is the key, a ledger of two tickets and a difficulty of 1/2.
\<close>

definition demo_lib :: lib where
  "demo_lib =
     \<lparr>Sha256 = (\<lambda>d. [word_of_nat (length d)]),
      Encode = (\<lambda>i. Seed i @ [ucast (Height i), ucast (Round i), ucast (Ty i)]),
      Evaluate = (\<lambda>priv input. (input @ priv, priv)),
      PubKeyBytes = (\<lambda>priv. priv),
      ParsePubKey = (\<lambda>pub. Some (be_int pub, 0)),
      ProofToHash = (\<lambda>pubKey input proof.
         if be_int proof = fst pubKey then Some (input @ proof) else None),
      PubKeyToAddr = (\<lambda>pub. ''0x00000000000000'' @ fmt_x pub),
      Pos33SortBlocks = 10\<rparr>"

definition demo_node :: node where
  "demo_node =
     \<lparr>myAddr = ''0x0000000000000007'',
      queryTicketCount = (\<lambda>addr h. 2),
      getPriv = Some [7],
      getDiff = (\<lambda>h r. Finite64 (1 / 2))\<rparr>"

definition demo_input :: VrfInput where
  "demo_input = \<lparr>Seed = [1], Height = 20, Round = 0, Ty = 0\<rparr>"

definition demo_proof :: HashProof where
  "demo_proof = \<lparr>Input = Some demo_input, VrfHash = [1, 20, 0, 0, 7], VrfProof = [7], Pubkey = [7]\<rparr>"

definition demo_msg :: "int64 \<Rightarrow> Pos33SortMsg" where
  "demo_msg i = \<lparr>SortHash = Some \<lparr>Hash = [1], Index = i, Num = 0\<rparr>, Proof = Some demo_proof\<rparr>"

text \<open>The same library with the identity in the place of SHA-256: the hash shows the bytes hashed.\<close>

definition echo_lib :: lib where
  "echo_lib = demo_lib\<lparr>Sha256 := (\<lambda>d. d)\<rparr>"

text \<open>Two 32-byte hashes that differ only in the order of their bytes.\<close>

definition hash_one_first :: "byte list" where
  "hash_one_first = [1, 0, 0, 0, 0, 0, 0, 0, 0, 0, 0, 0, 0, 0, 0, 0,
                     0, 0, 0, 0, 0, 0, 0, 0, 0, 0, 0, 0, 0, 0, 0, 0]"

definition hash_one_last :: "byte list" where
  "hash_one_last = [0, 0, 0, 0, 0, 0, 0, 0, 0, 0, 0, 0, 0, 0, 0, 0,
                    0, 0, 0, 0, 0, 0, 0, 0, 0, 0, 0, 0, 0, 0, 0, 1]"

section \<open>Properties\<close>

subsection \<open>The arithmetic of the threshold test\<close>

text \<open>
  Dividing an integer by \<open>2 ^ 256\<close> only moves the binary point, and the precision that
  \<open>SetInt\<close> and \<open>Quo\<close> choose is at least the bit length of the integer: the rounding in
  \<open>big.Float\<close> changes nothing.
\<close>

lemma round_half_even_of_int: "round_half_even (of_int k) = k"
  by (simp add: round_half_even_def)

lemma bitlen_powi_bounds:
  fixes a :: int
  assumes "0 < a"
  shows "(2::rat) powi (bitlen a - 1) \<le> of_int a" and "of_int a < (2::rat) powi (bitlen a)"
proof -
  from bitlen_bounds [OF assms]
  have lo: "2 ^ nat (bitlen a - 1) \<le> a" and hi: "a < 2 ^ nat (bitlen a)" by simp_all
  have pos: "0 < bitlen a" using assms bitlen_nonneg [of a] bitlen_eq_zero_iff [of a] by linarith
  have "(2::rat) powi (bitlen a - 1) = 2 ^ nat (bitlen a - 1)"
    using pos by (simp add: power_int_nonneg_exp)
  also have "\<dots> = of_int (2 ^ nat (bitlen a - 1))" by simp
  also have "\<dots> \<le> of_int a" using lo by (simp only: of_int_le_iff)
  finally show "(2::rat) powi (bitlen a - 1) \<le> of_int a" .
  have "(of_int a :: rat) < of_int (2 ^ nat (bitlen a))" using hi by (simp only: of_int_less_iff)
  also have "\<dots> = 2 powi (bitlen a)" using pos by (simp add: power_int_nonneg_exp)
  finally show "of_int a < (2::rat) powi (bitlen a)" .
qed

lemma binexp_bounds:
  assumes "q \<noteq> 0"
  shows "2 powi (binexp q - 1) \<le> \<bar>q\<bar> \<and> \<bar>q\<bar> < 2 powi (binexp q)"
proof -
  obtain a b where ab: "quotient_of \<bar>q\<bar> = (a, b)" by (cases "quotient_of \<bar>q\<bar>")
  have b: "0 < b" using ab by (rule quotient_of_denom_pos)
  have q: "\<bar>q\<bar> = of_int a / of_int b" using ab by (rule quotient_of_div)
  have "0 < \<bar>q\<bar>" using assms by simp
  then have a: "0 < a" using b unfolding q by (simp add: zero_less_divide_iff)
  define d where "d = bitlen a - bitlen b"
  have e: "binexp q = (if \<bar>q\<bar> < 2 powi d then d else d + 1)"
    by (simp add: binexp_def ab d_def Let_def)
  have bpos: "(0::rat) < of_int b" using b by simp
  have up: "\<bar>q\<bar> < 2 powi (d + 1)"
  proof -
    have "of_int a < (2::rat) powi (bitlen a)" using a by (rule bitlen_powi_bounds)
    moreover have "(2::rat) powi (bitlen b - 1) \<le> of_int b" using b by (rule bitlen_powi_bounds)
    ultimately have "of_int a * (2::rat) powi (bitlen b - 1) < 2 powi (bitlen a) * of_int b"
      using bpos a by (intro mult_less_le_imp_less) simp_all
    then have "of_int a / of_int b < (2::rat) powi (bitlen a) / 2 powi (bitlen b - 1)"
      using bpos by (simp add: field_simps)
    also have "\<dots> = 2 powi (d + 1)"
      by (simp add: d_def power_int_diff [symmetric] algebra_simps)
    finally show ?thesis unfolding q .
  qed
  have lo: "2 powi (d - 1) \<le> \<bar>q\<bar>"
  proof -
    have "(2::rat) powi (bitlen a - 1) \<le> of_int a" using a by (rule bitlen_powi_bounds)
    moreover have "of_int b < (2::rat) powi (bitlen b)" using b by (rule bitlen_powi_bounds)
    ultimately have "(2::rat) powi (bitlen a - 1) * of_int b \<le> of_int a * 2 powi (bitlen b)"
      using bpos a by (intro mult_mono) simp_all
    then have "(2::rat) powi (bitlen a - 1) / 2 powi (bitlen b) \<le> of_int a / of_int b"
      using bpos by (simp add: field_simps)
    moreover have "(2::rat) powi (bitlen a - 1) / 2 powi (bitlen b) = 2 powi (d - 1)"
      by (simp add: d_def power_int_diff [symmetric] algebra_simps)
    ultimately show ?thesis unfolding q by simp
  qed
  show ?thesis
  proof (cases "\<bar>q\<bar> < 2 powi d")
    case True
    then show ?thesis using lo by (simp add: e)
  next
    case False
    then show ?thesis using up by (simp add: e)
  qed
qed

lemma binexp_le:
  assumes "q \<noteq> 0" and "\<bar>q\<bar> < 2 powi k"
  shows "binexp q \<le> k"
proof (rule ccontr)
  assume "\<not> binexp q \<le> k"
  then have "k \<le> binexp q - 1" by simp
  then have "(2::rat) powi k \<le> 2 powi (binexp q - 1)" by (intro power_int_increasing) simp_all
  also have "\<dots> \<le> \<bar>q\<bar>" using binexp_bounds [OF assms(1)] by simp
  finally show False using assms(2) by simp
qed

lemma round_prec_dyadic:
  assumes "bitlen \<bar>y\<bar> \<le> int p"
  shows "round_prec p (of_int y * 2 powi k) = of_int y * 2 powi k"
proof (cases "y = 0")
  case True
  then show ?thesis by (simp add: round_prec_def)
next
  case False
  define q :: rat where "q = of_int y * 2 powi k"
  have q0: "q \<noteq> 0" using False by (simp add: q_def)
  have "\<bar>q\<bar> = of_int \<bar>y\<bar> * 2 powi k" by (simp add: q_def abs_mult)
  moreover have "of_int \<bar>y\<bar> < (2::rat) powi (bitlen \<bar>y\<bar>)"
    using False by (intro bitlen_powi_bounds) simp
  ultimately have "\<bar>q\<bar> < 2 powi (bitlen \<bar>y\<bar>) * 2 powi k" by simp
  also have "\<dots> = 2 powi (bitlen \<bar>y\<bar> + k)" by (simp add: power_int_add)
  finally have "binexp q \<le> bitlen \<bar>y\<bar> + k" using q0 by (intro binexp_le)
  then have n: "0 \<le> k - (binexp q - int p)" using assms by simp
  define n where "n = nat (k - (binexp q - int p))"
  have "q / 2 powi (binexp q - int p) = of_int y * 2 powi (k - (binexp q - int p))"
    by (simp add: q_def power_int_diff)
  also have "\<dots> = of_int (y * 2 ^ n)" using n by (simp add: n_def power_int_nonneg_exp)
  finally have s: "q / 2 powi (binexp q - int p) = of_int (y * 2 ^ n)" .
  have "round_prec p q = of_int (y * 2 ^ n) * 2 powi (binexp q - int p)"
    using q0 by (simp add: round_prec_def Let_def s round_half_even_of_int del: of_int_mult of_int_power)
  also have "\<dots> = q" using s [symmetric] by simp
  finally show ?thesis by (simp add: q_def)
qed

lemma round_prec_of_int: "bitlen \<bar>y\<bar> \<le> int p \<Longrightarrow> round_prec p (of_int y) = of_int y"
  using round_prec_dyadic [of y p 0] by simp

lemma max_big_powi: "(of_int max_big :: rat) = 2 powi 256"
  by (simp add: max_big_def)

lemma max_big_nz: "max_big \<noteq> 0"
  by (simp add: max_big_def)

lemma fmax_eq: "fmax = \<lparr>prec = 53, fv = Finite (of_int max_big)\<rparr>"
proof -
  have "bitlen \<bar>1\<bar> \<le> int 53" by (simp add: bitlen_le_iff_power)
  then have "round_prec 53 (of_int 1 * 2 powi 256) = of_int 1 * 2 powi 256"
    by (rule round_prec_dyadic)
  then have "round_prec 53 (of_int max_big) = of_int max_big"
    by (simp only: max_big_powi of_int_1 mult_1)
  then show ?thesis by (simp add: fmax_def SetInt_def)
qed

lemma prec_new_Float: "prec new_Float = 0"
  by (simp add: new_Float_def)

lemma SetInt_new:
  "SetInt new_Float y = \<lparr>prec = max (nat (bitlen \<bar>y\<bar>)) 64, fv = Finite (of_int y)\<rparr>"
proof -
  have "bitlen \<bar>y\<bar> \<le> int (max (nat (bitlen \<bar>y\<bar>)) 64)" by simp
  then have "round_prec (max (nat (bitlen \<bar>y\<bar>)) 64) (of_int y) = of_int y"
    by (rule round_prec_of_int)
  then show ?thesis by (simp add: SetInt_def prec_new_Float Let_def)
qed

lemma Quo_fmax:
  "Quo new_Float (SetInt new_Float y) fmax =
     Ret \<lparr>prec = max (max (nat (bitlen \<bar>y\<bar>)) 64) 53, fv = Finite (of_int y / of_int max_big)\<rparr>"
proof -
  let ?p = "max (max (nat (bitlen \<bar>y\<bar>)) 64) 53"
  have "bitlen \<bar>y\<bar> \<le> int ?p" by simp
  then have "round_prec ?p (of_int y * 2 powi (- 256)) = of_int y * 2 powi (- 256)"
    by (rule round_prec_dyadic)
  moreover have e: "(of_int y :: rat) * 2 powi (- 256) = of_int y / of_int max_big"
    by (simp only: max_big_powi power_int_minus divide_inverse)
  ultimately have "round_prec ?p (of_int y / of_int max_big) = of_int y / of_int max_big"
    by (simp only: e)
  then show ?thesis
    by (simp add: Quo_def SetInt_new fmax_eq prec_new_Float max_big_nz Let_def)
qed

lemma overDiff_eq:
  "overDiff h diff =
     (case diff of
        NaN64 \<Rightarrow> Panic
      | Finite64 d \<Rightarrow> Ret (d < of_int (HashToBig h) / of_int max_big)
      | PosInf64 \<Rightarrow> Ret False
      | NegInf64 \<Rightarrow> Ret True)"
  by (simp add: overDiff_def Quo_fmax NewFloat_def Cmp_def Let_def split: float64.split)

lemma win_iff_ratio_le:
  "(overDiff h diff = Ret False) = ratio_le (of_int (HashToBig h) / 2 ^ 256) diff"
proof -
  have m: "(of_int max_big :: rat) = 2 ^ 256" by (simp only: max_big_def of_int_power of_int_numeral)
  show ?thesis
    by (cases diff) (simp_all only: overDiff_eq m float64.case ratio_le.simps outcome.inject
        outcome.distinct not_less simp_thms)
qed

lemma sortF_Some:
  assumes "sortF L vrfHash index num diff hp = Ret (Some m)"
  shows "m = \<lparr>SortHash = Some \<lparr>Hash = hash2 L (bytes_of (Sprintf_x_d_d vrfHash (sint index) (sint num))),
                              Index = index, Num = ucast num\<rparr>, Proof = hp\<rparr>
    \<and> overDiff (hash2 L (bytes_of (Sprintf_x_d_d vrfHash (sint index) (sint num)))) diff = Ret False"
  using assms by (simp add: sortF_def Let_def split: outcome.splits bool.splits)

lemma sortF_no_panic: "diff \<noteq> NaN64 \<Longrightarrow> sortF L v i k diff hp \<noteq> Panic"
  by (cases diff) (simp_all add: sortF_def overDiff_eq Let_def split: bool.splits)

subsection \<open>The text of the ticket hash\<close>

lemma hexdigit_in: "d < 16 \<Longrightarrow> hexdigit d \<in> set ''0123456789abcdef''"
proof -
  assume "d < 16"
  then have "d < length ''0123456789abcdef''" by simp
  then show ?thesis unfolding hexdigit_def by (rule nth_mem)
qed

lemma fmt_x_lower_hex: "set (fmt_x bs) \<subseteq> set ''0123456789abcdef''"
proof
  fix c
  assume "c \<in> set (fmt_x bs)"
  then obtain b :: byte where "c = hexdigit (unat b div 16) \<or> c = hexdigit (unat b mod 16)"
    unfolding fmt_x_def by auto
  moreover have "unat b div 16 < 16"
    using unsigned_less [of b, where ?'a = nat] by simp
  moreover have "unat b mod 16 < 16" by simp
  ultimately show "c \<in> set ''0123456789abcdef''"
    using hexdigit_in by blast
qed

lemma length_fmt_x: "length (fmt_x bs) = 2 * length bs"
  by (induction bs) (simp_all add: fmt_x_def)

lemma be_int_snoc: "be_int (xs @ [b]) = be_int xs * 256 + uint b"
  by (simp add: be_int_def)

text \<open>The helper reads its argument least significant byte first.\<close>

lemma HashToBig_le_int: "HashToBig h = le_int h"
  by (induction h) (simp_all add: HashToBig_def be_int_snoc, simp add: be_int_def)

lemma hexval_hexdigit: "d < 16 \<Longrightarrow> hexval (hexdigit d) = Some d"
proof -
  assume d: "d < 16"
  have "map_of (zip ''0123456789abcdef'' [0..<16]) (''0123456789abcdef'' ! d) = Some ([0..<16] ! d)"
    using d by (intro map_of_zip_nth) simp_all
  then show ?thesis using d by (simp add: hexval_def hexdigit_def del: upt_Suc)
qed

lemma unhex_fmt_x: "unhex (fmt_x v) = Some v"
proof (induction v)
  case Nil
  show ?case by (simp add: fmt_x_def)
next
  case (Cons b bs)
  have hi: "unat b div 16 < 16" using unsigned_less [of b, where ?'a = nat] by simp
  have lo: "unat b mod 16 < 16" by simp
  have f: "fmt_x (b # bs) = hexdigit (unat b div 16) # hexdigit (unat b mod 16) # fmt_x bs"
    by (simp add: fmt_x_def)
  have "16 * (unat b div 16) + unat b mod 16 = unat b" by simp
  then show ?case
    using Cons.IH by (simp add: f hexval_hexdigit [OF hi] hexval_hexdigit [OF lo])
qed

lemma digitval_digit: "d < 10 \<Longrightarrow> digitval (''0123456789'' ! d) = Some d"
proof -
  assume d: "d < 10"
  have "map_of (zip ''0123456789'' [0..<10]) (''0123456789'' ! d) = Some ([0..<10] ! d)"
    using d by (intro map_of_zip_nth) simp_all
  then show ?thesis using d by (simp add: digitval_def del: upt_Suc)
qed

lemma read_digits_append:
  "read_digits a (xs @ ys) = (case read_digits a xs of None \<Rightarrow> None | Some a' \<Rightarrow> read_digits a' ys)"
  by (induction xs arbitrary: a) (simp_all split: option.splits)

lemma read_digits_digits10: "read_digits 0 (digits10 k) = Some k"
proof (induction k rule: digits10.induct)
  case (1 k)
  show ?case
  proof (cases "k < 10")
    case True
    then show ?thesis by (subst digits10.simps) (simp add: digitval_digit)
  next
    case False
    then have "read_digits 0 (digits10 (k div 10)) = Some (k div 10)" by (rule "1.IH")
    moreover have "k mod 10 < 10" by simp
    ultimately show ?thesis
      using False
      by (subst digits10.simps) (simp add: read_digits_append digitval_digit)
  qed
qed

lemma digit_in: "d < 10 \<Longrightarrow> ''0123456789'' ! d \<in> set ''0123456789''"
  by (rule nth_mem) simp

lemma digits10_digits: "set (digits10 k) \<subseteq> set ''0123456789''"
proof (induction k rule: digits10.induct)
  case (1 k)
  show ?case
  proof (cases "k < 10")
    case True
    then show ?thesis using digit_in [of k] by (subst digits10.simps) simp
  next
    case False
    then have "set (digits10 (k div 10)) \<subseteq> set ''0123456789''" by (rule "1.IH")
    moreover have "''0123456789'' ! (k mod 10) \<in> set ''0123456789''" by (rule digit_in) simp
    ultimately show ?thesis using False by (subst digits10.simps) simp
  qed
qed

lemma digits10_not_Nil: "digits10 k \<noteq> []"
  by (subst digits10.simps) simp

lemma hd_digits10_digit: "hd (digits10 k) \<in> set ''0123456789''"
  using digits10_digits [of k] digits10_not_Nil [of k] hd_in_set by blast

lemma hd_digits10_nonzero: "0 < k \<Longrightarrow> hd (digits10 k) \<noteq> CHR ''0''"
proof (induction k rule: digits10.induct)
  case (1 k)
  show ?case
  proof (cases "k < 10")
    case True
    have "distinct ''0123456789''" by simp
    then have "(''0123456789'' ! k = ''0123456789'' ! 0) = (k = 0)"
      using True by (intro nth_eq_iff_index_eq) simp_all
    then have "''0123456789'' ! k \<noteq> CHR ''0''" using "1.prems" by simp
    then show ?thesis using True by (subst digits10.simps) simp
  next
    case False
    then have "0 < k div 10" by simp
    with False have "hd (digits10 (k div 10)) \<noteq> CHR ''0''" by (intro "1.IH") simp_all
    then show ?thesis
      using False digits10_not_Nil [of "k div 10"] by (subst digits10.simps) simp
  qed
qed

lemma read_dec_fmt_d: "read_dec (fmt_d i) = Some i"
proof (cases "i < 0")
  case True
  then show ?thesis
    by (simp add: fmt_d_def read_dec_def digits10_not_Nil read_digits_digits10 del: digits10.simps)
next
  case False
  obtain c cs where d: "digits10 (nat i) = c # cs"
    using digits10_not_Nil [of "nat i"] by (cases "digits10 (nat i)") (simp_all del: digits10.simps)
  have "c \<in> set ''0123456789''" using hd_digits10_digit [of "nat i"] d by (simp del: digits10.simps)
  then have "c \<noteq> CHR ''-''" by auto
  moreover have "read_digits 0 (c # cs) = Some (nat i)"
    using read_digits_digits10 [of "nat i"] d by (simp del: digits10.simps)
  ultimately show ?thesis using False d by (simp add: fmt_d_def read_dec_def del: digits10.simps)
qed

lemma canonical_dec_fmt_d: "canonical_dec (fmt_d i)"
proof (cases "i < 0")
  case True
  then have "hd (digits10 (nat (- i))) \<noteq> CHR ''0''" by (intro hd_digits10_nonzero) simp
  then show ?thesis using True by (simp add: fmt_d_def canonical_dec_def digits10_not_Nil del: digits10.simps)
next
  case False
  obtain c cs where d: "digits10 (nat i) = c # cs"
    using digits10_not_Nil [of "nat i"] by (cases "digits10 (nat i)") (simp_all del: digits10.simps)
  have "c \<in> set ''0123456789''" using hd_digits10_digit [of "nat i"] d by (simp del: digits10.simps)
  then have m: "c \<noteq> CHR ''-''" by auto
  show ?thesis
  proof (cases "i = 0")
    case True
    then show ?thesis by (simp add: fmt_d_def canonical_dec_def)
  next
    case False
    with \<open>\<not> i < 0\<close> have "0 < nat i" by simp
    then have "hd (digits10 (nat i)) \<noteq> CHR ''0''" by (rule hd_digits10_nonzero)
    then show ?thesis using \<open>\<not> i < 0\<close> d m by (simp add: fmt_d_def canonical_dec_def del: digits10.simps)
  qed
qed

lemma utf8_ascii: "\<forall>c \<in> set s. (of_char c :: nat) < 128 \<Longrightarrow> utf8 s = bytes_of s"
  by (induction s) (simp_all add: utf8_def utf8_char_def bytes_of_def)

lemma ascii_digit: "c \<in> set ''0123456789'' \<Longrightarrow> (of_char c :: nat) < 128"
  by auto

lemma ascii_hexdigit: "c \<in> set ''0123456789abcdef'' \<Longrightarrow> (of_char c :: nat) < 128"
  by auto

lemma ascii_fmt_d: "c \<in> set (fmt_d i) \<Longrightarrow> (of_char c :: nat) < 128"
proof -
  assume c: "c \<in> set (fmt_d i)"
  show ?thesis
  proof (cases "i < 0")
    case True
    then have "c = CHR ''-'' \<or> c \<in> set (digits10 (nat (- i)))"
      using c by (simp add: fmt_d_def del: digits10.simps)
    then show ?thesis
    proof
      assume "c = CHR ''-''"
      then show ?thesis by simp
    next
      assume "c \<in> set (digits10 (nat (- i)))"
      then have "c \<in> set ''0123456789''" using digits10_digits by blast
      then show ?thesis by (rule ascii_digit)
    qed
  next
    case False
    then have "c \<in> set (digits10 (nat i))" using c by (simp add: fmt_d_def del: digits10.simps)
    then have "c \<in> set ''0123456789''" using digits10_digits by blast
    then show ?thesis by (rule ascii_digit)
  qed
qed

lemma ascii_fmt_x: "c \<in> set (fmt_x v) \<Longrightarrow> (of_char c :: nat) < 128"
  using fmt_x_lower_hex [of v] ascii_hexdigit by blast

lemma utf8_Sprintf: "utf8 (Sprintf_x_d_d v i k) = bytes_of (Sprintf_x_d_d v i k)"
proof (rule utf8_ascii, rule ballI)
  fix c assume "c \<in> set (Sprintf_x_d_d v i k)"
  then have "c \<in> set (fmt_x v) \<union> ({CHR ''+''} \<union> (set (fmt_d i) \<union> ({CHR ''+''} \<union> set (fmt_d k))))"
    by (simp only: Sprintf_x_d_d_def set_append list.set Un_insert_left Un_empty_left)
  then consider "c \<in> set (fmt_x v)" | "c = CHR ''+''" | "c \<in> set (fmt_d i)" | "c \<in> set (fmt_d k)"
    by blast
  then show "(of_char c :: nat) < 128"
  proof cases
    case 1 then show ?thesis by (rule ascii_fmt_x)
  next
    case 2 then show ?thesis by simp
  next
    case 3 then show ?thesis by (rule ascii_fmt_d)
  next
    case 4 then show ?thesis by (rule ascii_fmt_d)
  qed
qed

subsection \<open>The verifier's checks, stage by stage\<close>

lemma verifySort_above:
  "sint (Pos33SortBlocks L) < sint height \<Longrightarrow>
   verifySort L n height ty seed m = verifySort_checks L n height ty seed m"
  by (simp add: verifySort_def)

lemma verifySort_bootstrap:
  "sint height \<le> sint (Pos33SortBlocks L) \<Longrightarrow> verifySort L n height ty seed m = Ret None"
  by (simp add: verifySort_def)

lemma vrfVerify_error: "vrfVerify L pub input p h = Some e \<Longrightarrow> e = ErrVrfVerify"
  by (simp add: vrfVerify_def split: option.splits if_splits)

text \<open>The VRF check passes exactly when the key parses and the library turns the proof into the hash.\<close>

lemma vrfVerify_None_iff:
  "(vrfVerify L pub input p h = None)
     = (\<exists>pubKey. ParsePubKey L pub = Some pubKey \<and> ProofToHash L pubKey input p = Some h)"
  by (auto simp add: vrfVerify_def split: option.splits)

text \<open>What the last two stages of the checks return once the earlier ones have passed.\<close>

lemma verifySort_checks_stages:
  assumes "Input pf = Some inp"
    and "sint (Index sh) < sint (queryTicketCount n (PubKeyToAddr L (Pubkey pf)) (verifySort_snapshot L height))"
    and "Height inp = height" and "Seed inp = seed" and "Ty inp = ucast ty"
    and "vrfVerify L (Pubkey pf)
           (Encode L \<lparr>Seed = seed, Height = height, Round = Round inp, Ty = ucast ty\<rparr>)
           (VrfProof pf) (VrfHash pf) = None"
  shows "verifySort_checks L n height ty seed (Some \<lparr>SortHash = Some sh, Proof = Some pf\<rparr>) =
     (if hash2 L (bytes_of (Sprintf_x_d_d (VrfHash pf) (sint (Index sh)) (sint (Num sh)))) \<noteq> Hash sh
      then Ret (Some (Errorf ''sort hash error''))
      else case overDiff (Hash sh) (getDiff n height (scast (Round inp))) of
             Panic \<Rightarrow> Panic
           | Ret True \<Rightarrow> Ret (Some errDiff)
           | Ret False \<Rightarrow> Ret None)"
  using assms by (simp add: verifySort_checks_def Let_def)


text \<open>What an accepted message has passed.\<close>

lemma verifySort_checks_accepted:
  assumes "verifySort_checks L n height ty seed (Some \<lparr>SortHash = Some sh, Proof = Some pf\<rparr>) = Ret None"
  shows "\<exists>inp. Input pf = Some inp
    \<and> sint (Index sh) < sint (queryTicketCount n (PubKeyToAddr L (Pubkey pf)) (verifySort_snapshot L height))
    \<and> Height inp = height \<and> Seed inp = seed \<and> Ty inp = ucast ty
    \<and> vrfVerify L (Pubkey pf)
           (Encode L \<lparr>Seed = seed, Height = height, Round = Round inp, Ty = ucast ty\<rparr>)
           (VrfProof pf) (VrfHash pf) = None
    \<and> Hash sh = hash2 L (bytes_of (Sprintf_x_d_d (VrfHash pf) (sint (Index sh)) (sint (Num sh))))
    \<and> overDiff (Hash sh) (getDiff n height (scast (Round inp))) = Ret False"
proof (cases "Input pf")
  case None
  then show ?thesis using assms by (simp add: verifySort_checks_def)
next
  case (Some inp)
  let ?count = "queryTicketCount n (PubKeyToAddr L (Pubkey pf)) (verifySort_snapshot L height)"
  have 1: "sint (Index sh) < sint ?count"
    using assms Some by (simp add: verifySort_checks_def Let_def split: if_splits)
  have 2: "Height inp = height"
    using assms Some 1 by (simp add: verifySort_checks_def Let_def split: if_splits)
  have 3: "Seed inp = seed"
    using assms Some 1 2 by (simp add: verifySort_checks_def Let_def split: if_splits)
  have 4: "Ty inp = ucast ty"
    using assms Some 1 2 3 by (simp add: verifySort_checks_def Let_def split: if_splits)
  have 5: "vrfVerify L (Pubkey pf)
           (Encode L \<lparr>Seed = seed, Height = height, Round = Round inp, Ty = ucast ty\<rparr>)
           (VrfProof pf) (VrfHash pf) = None"
    using assms Some 1 2 3 4
    by (simp add: verifySort_checks_def Let_def split: if_splits option.splits)
  note st = verifySort_checks_stages [OF Some 1 2 3 4 5]
  have 6: "Hash sh = hash2 L (bytes_of (Sprintf_x_d_d (VrfHash pf) (sint (Index sh)) (sint (Num sh))))"
    using assms st by (simp split: if_splits)
  have 7: "overDiff (Hash sh) (getDiff n height (scast (Round inp))) = Ret False"
    using assms st 6 by (simp split: if_splits outcome.splits bool.splits)
  show ?thesis using Some 1 2 3 4 5 6 7 by simp
qed

text \<open>No error of an earlier check is the error of the hash comparison.\<close>

lemma verifySort_checks_not_hash_error:
  assumes "Hash sh = hash2 L (bytes_of (Sprintf_x_d_d (VrfHash pf) (sint (Index sh)) (sint (Num sh))))"
  shows "verifySort_checks L n height ty seed (Some \<lparr>SortHash = Some sh, Proof = Some pf\<rparr>)
    \<noteq> Ret (Some (Errorf ''sort hash error''))"
proof (cases "Input pf")
  case None
  then show ?thesis by (simp add: verifySort_checks_def)
next
  case (Some inp)
  show ?thesis
  proof (cases "vrfVerify L (Pubkey pf)
      (Encode L \<lparr>Seed = seed, Height = height, Round = Round inp, Ty = ucast ty\<rparr>)
      (VrfProof pf) (VrfHash pf)")
    case None
    then show ?thesis
      using Some assms
      by (simp add: verifySort_checks_def Let_def split: outcome.splits bool.splits)
  next
    case (Some e)
    then have "e = ErrVrfVerify" by (rule vrfVerify_error)
    then show ?thesis
      using Some \<open>Input pf = Some inp\<close>
      by (simp add: verifySort_checks_def Let_def)
  qed
qed

lemma vrf_correct_vrfVerify:
  assumes "vrf_correct L"
  shows "vrfVerify L (PubKeyBytes L priv) input (snd (Evaluate L priv input))
    (fst (Evaluate L priv input)) = None"
proof -
  from assms obtain pubKey where "ParsePubKey L (PubKeyBytes L priv) = Some pubKey"
    and "ProofToHash L pubKey input (snd (Evaluate L priv input)) = Some (fst (Evaluate L priv input))"
    unfolding vrf_correct_def by blast
  then show ?thesis by (simp add: vrfVerify_def)
qed

subsection \<open>The scheduler's invariant\<close>

text \<open>
  In every state of a \<open>doSort\<close> call, the messages received so far together with the
  wins among the indices still with the workers are the wins among the indices taken.
\<close>

lemma won_Nil: "won L v k d hp [] = []"
  by (simp add: won_def)

lemma won_append: "won L v k d hp (xs @ ys) = won L v k d hp xs @ won L v k d hp ys"
  by (simp add: won_def)

lemma won_lose: "sortF L v (word_of_nat i) k d hp = Ret None \<Longrightarrow> won L v k d hp [i] = []"
  by (simp add: won_def)

lemma won_win: "sortF L v (word_of_nat i) k d hp = Ret (Some m) \<Longrightarrow> won L v k d hp [i] = [m]"
  by (simp add: won_def)

lemma won_Cons: "won L v k d hp (x # xs) = won L v k d hp [x] @ won L v k d hp xs"
  by (simp add: won_def)

lemma mset_won_remove1:
  "i \<in> set busy \<Longrightarrow>
   mset (won L v k d hp busy) = mset (won L v k d hp [i]) + mset (won L v k d hp (remove1 i busy))"
proof (induction busy)
  case Nil
  then show ?case by simp
next
  case (Cons x xs)
  show ?case
  proof (cases "x = i")
    case True
    then show ?thesis by (simp add: won_Cons [of L v k d hp i xs])
  next
    case False
    with Cons.prems have "i \<in> set xs" by simp
    then have "mset (won L v k d hp xs)
        = mset (won L v k d hp [i]) + mset (won L v k d hp (remove1 i xs))"
      by (rule Cons.IH)
    then show ?thesis
      using False
      by (simp add: won_Cons [of L v k d hp x xs] won_Cons [of L v k d hp x "remove1 i xs"])
  qed
qed

lemma pool_invariant:
  assumes "pool L v c k d hp sent busy msgs j"
  shows "j + length busy = sent \<and> (sent = 0 \<or> int sent \<le> sint c)
    \<and> mset msgs + mset (won L v k d hp busy) = mset (won L v k d hp [0..<sent])"
  using assms
proof (induction rule: pool.induct)
  case start
  show ?case by (simp add: won_Nil)
next
  case (take sent busy msgs j)
  then show ?case by (simp add: won_append)
next
  case (lose sent busy msgs j i)
  have len: "length (remove1 i busy) = length busy - 1" and pos: "0 < length busy"
    using lose.hyps(2) length_pos_if_in_set [of i busy] by (simp_all add: length_remove1)
  have "Suc j + length (remove1 i busy) = sent"
    using lose.IH len pos by linarith
  moreover have "mset msgs + mset (won L v k d hp (remove1 i busy))
      = mset (won L v k d hp [0..<sent])"
    using lose.IH mset_won_remove1 [OF lose.hyps(2), of L v k d hp] won_lose [OF lose.hyps(3)]
    by simp
  ultimately show ?case using lose.IH by simp
next
  case (win sent busy msgs j i m)
  have len: "length (remove1 i busy) = length busy - 1" and pos: "0 < length busy"
    using win.hyps(2) length_pos_if_in_set [of i busy] by (simp_all add: length_remove1)
  have "Suc j + length (remove1 i busy) = sent"
    using win.IH len pos by linarith
  moreover have "mset (msgs @ [m]) + mset (won L v k d hp (remove1 i busy))
      = mset (won L v k d hp [0..<sent])"
    using win.IH mset_won_remove1 [OF win.hyps(2), of L v k d hp] won_win [OF win.hyps(3)]
    by simp
  ultimately show ?case using win.IH by simp
qed

lemma doSort_mset:
  assumes "doSort L v c k d hp msgs"
  shows "mset msgs = mset (won L v k d hp [0..<nat (sint c)])"
proof -
  from assms obtain sent busy j
    where p: "pool L v c k d hp sent busy msgs j" and e: "\<not> int j < sint c"
    unfolding doSort_def by blast
  from pool_invariant [OF p]
  have a: "j + length busy = sent" and b: "sent = 0 \<or> int sent \<le> sint c"
    and m: "mset msgs + mset (won L v k d hp busy) = mset (won L v k d hp [0..<sent])"
    by simp_all
  have "length busy = 0 \<and> sent = nat (sint c)"
  proof (cases "sent = 0")
    case True
    then show ?thesis using a e by simp
  next
    case False
    then have "int sent \<le> sint c" using b by simp
    then show ?thesis using a e by linarith
  qed
  then show ?thesis using m by (simp add: won_Nil)
qed

lemma pool_in_order:
  assumes "\<forall>i<t. sortF L v (word_of_nat i) k d hp \<noteq> Panic" and "int t \<le> sint c"
  shows "pool L v c k d hp t [] (won L v k d hp [0..<t]) t"
  using assms
proof (induction t)
  case 0
  show ?case by (simp add: won_Nil pool.start)
next
  case (Suc t)
  then have p: "pool L v c k d hp t [] (won L v k d hp [0..<t]) t" by simp
  have "int t < sint c" using Suc.prems(2) by simp
  then have t: "pool L v c k d hp (Suc t) ([] @ [t]) (won L v k d hp [0..<t]) t"
    using p by (intro pool.take) (simp_all add: workers_def)
  have np: "sortF L v (word_of_nat t) k d hp \<noteq> Panic" using Suc.prems(1) by simp
  show ?case
  proof (cases "sortF L v (word_of_nat t) k d hp")
    case Panic
    then show ?thesis using np by simp
  next
    case (Ret r)
    show ?thesis
    proof (cases r)
      case None
      have "pool L v c k d hp (Suc t) (remove1 t ([] @ [t])) (won L v k d hp [0..<t]) (Suc t)"
        using t Ret None by (intro pool.lose) simp_all
      then show ?thesis using Ret None by (simp add: won_append won_lose)
    next
      case (Some m)
      have "pool L v c k d hp (Suc t) (remove1 t ([] @ [t])) (won L v k d hp [0..<t] @ [m]) (Suc t)"
        using t Ret Some by (intro pool.win) simp_all
      then show ?thesis using Ret Some by (simp add: won_append won_win)
    qed
  qed
qed

lemma doSort_returns:
  assumes "diff \<noteq> NaN64"
  shows "\<exists>msgs. doSort L v c k diff hp msgs"
proof (cases "0 \<le> sint c")
  case True
  let ?t = "nat (sint c)"
  have "\<forall>i<?t. sortF L v (word_of_nat i) k diff hp \<noteq> Panic"
    using assms by (simp add: sortF_no_panic)
  moreover have "int ?t \<le> sint c" using True by simp
  ultimately have "pool L v c k diff hp ?t [] (won L v k diff hp [0..<?t]) ?t"
    by (rule pool_in_order)
  moreover have "\<not> int ?t < sint c" using True by simp
  ultimately have "doSort L v c k diff hp (won L v k diff hp [0..<?t])"
    unfolding doSort_def by blast
  then show ?thesis ..
next
  case False
  have "pool L v c k diff hp 0 [] [] 0" by (rule pool.start)
  moreover have "\<not> int 0 < sint c" using False by simp
  ultimately have "doSort L v c k diff hp []"
    unfolding doSort_def by blast
  then show ?thesis ..
qed

lemma doSort_zero: "doSort L v 0 k d hp msgs = (msgs = [])"
proof
  assume "doSort L v 0 k d hp msgs"
  then have "mset msgs = mset (won L v k d hp [0..<nat (sint (0 :: goint))])" by (rule doSort_mset)
  then show "msgs = []" by (simp add: won_Nil)
next
  assume "msgs = []"
  then show "doSort L v 0 k d hp msgs"
    unfolding doSort_def using pool.start [of L v 0 k d hp] by force
qed

text \<open>
  While the receiving loop has not ended and no worker panics, one more result can
  always be received: the call cannot get stuck.
\<close>

lemma pool_can_receive:
  assumes "pool L v c k d hp sent busy msgs j" and "int j < sint c" and "d \<noteq> NaN64"
  shows "\<exists>sent' busy' msgs'. pool L v c k d hp sent' busy' msgs' (Suc j)"
proof -
  have deliver: "\<exists>sent' busy' msgs'. pool L v c k d hp sent' busy' msgs' (Suc j)"
    if p: "pool L v c k d hp s b msgs j" and i: "i \<in> set b" for s b i
  proof (cases "sortF L v (word_of_nat i) k d hp")
    case Panic
    then show ?thesis using sortF_no_panic [OF assms(3), of L v "word_of_nat i" k hp] by simp
  next
    case (Ret r)
    show ?thesis
    proof (cases r)
      case None
      then have "pool L v c k d hp s (remove1 i b) msgs (Suc j)"
        using p i Ret by (intro pool.lose) simp_all
      then show ?thesis by blast
    next
      case (Some m)
      then have "pool L v c k d hp s (remove1 i b) (msgs @ [m]) (Suc j)"
        using p i Ret by (intro pool.win) simp_all
      then show ?thesis by blast
    qed
  qed
  show ?thesis
  proof (cases busy)
    case Nil
    then have "sent = j" using pool_invariant [OF assms(1)] by simp
    then have "pool L v c k d hp (Suc sent) (busy @ [sent]) msgs j"
      using assms(1,2) Nil by (intro pool.take) (simp_all add: workers_def)
    moreover have "sent \<in> set (busy @ [sent])" by simp
    ultimately show ?thesis by (rule deliver)
  next
    case (Cons i rest)
    then have "i \<in> set busy" by simp
    with assms(1) show ?thesis by (rule deliver)
  qed
qed

lemma won_member:
  "m \<in> set (won L v k d hp is) \<Longrightarrow> \<exists>i\<in>set is. sortF L v (word_of_nat i) k d hp = Ret (Some m)"
  by (auto simp add: won_def split: outcome.splits option.splits)

lemma doSort_member:
  assumes "doSort L v c k d hp msgs" and "m \<in> set msgs"
  shows "\<exists>i. int i < sint c \<and> sortF L v (word_of_nat i) k d hp = Ret (Some m)"
proof -
  have "mset msgs = mset (won L v k d hp [0..<nat (sint c)])"
    using assms(1) by (rule doSort_mset)
  then have "set msgs = set (won L v k d hp [0..<nat (sint c)])" by (rule mset_eq_setD)
  then have "m \<in> set (won L v k d hp [0..<nat (sint c)])" using assms(2) by simp
  then obtain i where "i \<in> set [0..<nat (sint c)]"
    and "sortF L v (word_of_nat i) k d hp = Ret (Some m)"
    using won_member by blast
  then have "int i < sint c" and "sortF L v (word_of_nat i) k d hp = Ret (Some m)"
    by simp_all
  then show ?thesis by blast
qed

text \<open>The messages of a \<open>committeeSort\<close> call: one winning \<open>sortF\<close> result each.\<close>

lemma committeeSort_member:
  fixes round :: goint
  assumes "committeeSort L n seed height round ty msgs" and "m \<in> set msgs"
  shows "\<exists>priv i. getPriv n = Some priv
    \<and> sortF L (fst (Evaluate L priv (Encode L
          \<lparr>Seed = seed, Height = height, Round = ucast round, Ty = ucast ty\<rparr>)))
        (word_of_nat i) 0 (getDiff n height round)
        (Some \<lparr>Input = Some \<lparr>Seed = seed, Height = height, Round = ucast round, Ty = ucast ty\<rparr>,
               VrfHash = fst (Evaluate L priv (Encode L
                 \<lparr>Seed = seed, Height = height, Round = ucast round, Ty = ucast ty\<rparr>)),
               VrfProof = snd (Evaluate L priv (Encode L
                 \<lparr>Seed = seed, Height = height, Round = ucast round, Ty = ucast ty\<rparr>)),
               Pubkey = PubKeyBytes L priv\<rparr>) = Ret (Some m)"
proof (cases "getPriv n")
  case None
  then show ?thesis using assms by (simp add: committeeSort_def)
next
  case (Some priv)
  let ?input = "\<lparr>Seed = seed, Height = height, Round = ucast round, Ty = ucast ty\<rparr>"
  let ?e = "Evaluate L priv (Encode L ?input)"
  have "doSort L (fst ?e) (queryTicketCount n (myAddr n) (committeeSort_snapshot height)) 0
      (getDiff n height round)
      (Some \<lparr>Input = Some ?input, VrfHash = fst ?e, VrfProof = snd ?e, Pubkey = PubKeyBytes L priv\<rparr>)
      msgs"
    using assms(1) Some
    by (simp add: committeeSort_def calcuVrfHash_def Let_def split_beta)
  from doSort_member [OF this assms(2)] Some show ?thesis by blast
qed

subsection \<open>The small instance, run\<close>

lemma demo_hash2: "hash2 demo_lib d = [1]"
  by (simp add: hash2_def demo_lib_def)

lemma demo_overDiff: "overDiff [1] (Finite64 (1 / 2)) = Ret False"
  by (simp add: win_iff_ratio_le HashToBig_def be_int_def)

lemma demo_sortF:
  "sortF demo_lib v i 0 (Finite64 (1 / 2)) (Some demo_proof) = Ret (Some (demo_msg i))"
  by (simp add: sortF_def demo_hash2 demo_overDiff demo_msg_def)

lemma demo_vrfVerify:
  "vrfVerify demo_lib [7] (Encode demo_lib \<lparr>Seed = [1], Height = 20, Round = 0, Ty = 0\<rparr>) [7]
     [1, 20, 0, 0, 7] = None"
  by (simp add: vrfVerify_def demo_lib_def be_int_def)

lemma demo_above: "sint (Pos33SortBlocks demo_lib) < sint (20 :: int64)"
  by (simp add: demo_lib_def)

lemma demo_addr: "16 \<le> length (PubKeyToAddr demo_lib pub)"
  by (simp add: demo_lib_def)

lemma demo_count: "queryTicketCount demo_node a h = 2"
  by (simp add: demo_node_def)

lemma demo_vrf_correct: "vrf_correct demo_lib"
  by (simp add: vrf_correct_def demo_lib_def)



lemma echo_text: "Sprintf_x_d_d [1, 20, 0, 0, 7] 1 0 = ''0114000007+1+0''"
  by (simp add: Sprintf_x_d_d_def fmt_x_def fmt_d_def hexdigit_def)

lemma echo_overDiff:
  "overDiff [48, 49, 49, 52, 48, 48, 48, 48, 48, 55, 43, 49, 43, 48] (Finite64 (1 / 2)) = Ret False"
  by (simp add: win_iff_ratio_le HashToBig_le_int)

lemma echo_verifySort:
  "verifySort echo_lib demo_node 20 0 [1]
     (Some \<lparr>SortHash = Some \<lparr>Hash = [48, 49, 49, 52, 48, 48, 48, 48, 48, 55, 43, 49, 43, 48],
                               Index = 1, Num = 0\<rparr>,
            Proof = Some demo_proof\<rparr>) = Ret None"
proof -
  have a: "sint (Pos33SortBlocks echo_lib) < sint (20 :: int64)"
    by (simp add: echo_lib_def demo_lib_def)
  have v: "vrfVerify echo_lib [7]
      (Encode echo_lib \<lparr>Seed = [1], Height = 20, Round = 0, Ty = 0\<rparr>) [7] [1, 20, 0, 0, 7] = None"
    by (simp add: vrfVerify_def echo_lib_def demo_lib_def be_int_def)
  have h: "hash2 echo_lib (bytes_of ''0114000007+1+0'')
      = [48, 49, 49, 52, 48, 48, 48, 48, 48, 55, 43, 49, 43, 48]"
    by (simp add: hash2_def echo_lib_def bytes_of_def)
  have "verifySort_checks echo_lib demo_node 20 0 [1]
      (Some \<lparr>SortHash = Some \<lparr>Hash = [48, 49, 49, 52, 48, 48, 48, 48, 48, 55, 43, 49, 43, 48],
                                Index = 1, Num = 0\<rparr>,
             Proof = Some demo_proof\<rparr>) = Ret None"
    by (subst verifySort_checks_stages [where inp = demo_input])
      (simp_all add: demo_proof_def demo_input_def demo_node_def v echo_text h echo_overDiff)
  then show ?thesis using a by (simp add: verifySort_above)
qed

lemma demo_doSort:
  "doSort demo_lib [1, 20, 0, 0, 7] 2 0 (Finite64 (1 / 2)) (Some demo_proof) [demo_msg 1, demo_msg 0]"
proof -
  let ?pool = "pool demo_lib [1, 20, 0, 0, 7] 2 0 (Finite64 (1 / 2)) (Some demo_proof)"
  have "?pool 0 [] [] 0" by (rule pool.start)
  then have "?pool (Suc 0) ([] @ [0]) [] 0"
    by (rule pool.take) (simp_all add: workers_def)
  then have "?pool (Suc (Suc 0)) (([] @ [0]) @ [Suc 0]) [] 0"
    by (rule pool.take) (simp_all add: workers_def)
  then have "?pool (Suc (Suc 0)) (remove1 (Suc 0) (([] @ [0]) @ [Suc 0])) ([] @ [demo_msg 1]) (Suc 0)"
    by (rule pool.win) (simp_all add: demo_sortF)
  then have "?pool (Suc (Suc 0)) [0] [demo_msg 1] (Suc 0)" by simp
  then have "?pool (Suc (Suc 0)) (remove1 0 [0]) ([demo_msg 1] @ [demo_msg 0]) (Suc (Suc 0))"
    by (rule pool.win) (simp_all add: demo_sortF)
  then have "?pool 2 [] [demo_msg 1, demo_msg 0] 2" by (simp add: numeral_2_eq_2)
  moreover have "\<not> int 2 < sint (2 :: goint)" by simp
  ultimately show ?thesis unfolding doSort_def by blast
qed

lemma demo_committeeSort:
  "committeeSort demo_lib demo_node [1] 20 0 0 [demo_msg 1, demo_msg 0]"
proof -
  have e: "calcuVrfHash demo_lib \<lparr>Seed = [1], Height = 20, Round = 0, Ty = 0\<rparr> [7]
      = ([1, 20, 0, 0, 7], [7])"
    by (simp add: calcuVrfHash_def demo_lib_def)
  have p: "PubKeyBytes demo_lib [7] = [7]" by (simp add: demo_lib_def)
  have n: "getPriv demo_node = Some [7]" "getDiff demo_node 20 0 = Finite64 (1 / 2)"
    by (simp_all add: demo_node_def)
  have d: "demo_proof = \<lparr>Input = Some \<lparr>Seed = [1], Height = 20, Round = 0, Ty = 0\<rparr>,
      VrfHash = [1, 20, 0, 0, 7], VrfProof = [7], Pubkey = [7]\<rparr>"
    by (simp add: demo_proof_def demo_input_def)
  show ?thesis
    using demo_doSort
    by (simp add: committeeSort_def Let_def e p n demo_count demo_addr d [symmetric])
qed

section \<open>The claims\<close>

text \<open>
  C1. Round trip. Every message in a list that \<open>committeeSort\<close> returns for
  \<open>(seed, height, round, ty)\<close> is accepted by \<open>verifySort\<close> for \<open>(height, ty, seed)\<close> on any
  node whose ledger reports at least \<open>Index + 1\<close> tickets for the producer's address at the
  verifier's snapshot height and whose difficulty oracle gives the verifier's call (which
  passes the round through \<open>int32\<close>) the diff it gave the producer, the VRF library being
  correct.
\<close>

theorem sortition_round_trip:
  fixes round :: goint
  assumes "committeeSort L np seed height round ty msgs" and "m \<in> set msgs"
    and "vrf_correct L"
    and "\<forall>sh pf. SortHash m = Some sh \<and> Proof m = Some pf \<longrightarrow>
           sint (Index sh) + 1
             \<le> sint (queryTicketCount nv (PubKeyToAddr L (Pubkey pf)) (verifySort_snapshot L height))"
    and "getDiff nv height (scast (ucast round :: int32)) = getDiff np height round"
  shows "verifySort L nv height ty seed (Some m) = Ret None"
proof (cases "sint height \<le> sint (Pos33SortBlocks L)")
  case True
  then show ?thesis by (rule verifySort_bootstrap)
next
  case False
  then have above: "sint (Pos33SortBlocks L) < sint height" by simp
  let ?input = "\<lparr>Seed = seed, Height = height, Round = ucast round, Ty = ucast ty\<rparr>"
  from committeeSort_member [OF assms(1,2)] obtain priv i where
    s: "sortF L (fst (Evaluate L priv (Encode L ?input))) (word_of_nat i) 0 (getDiff np height round)
        (Some \<lparr>Input = Some ?input, VrfHash = fst (Evaluate L priv (Encode L ?input)),
               VrfProof = snd (Evaluate L priv (Encode L ?input)),
               Pubkey = PubKeyBytes L priv\<rparr>) = Ret (Some m)"
    by blast
  let ?e = "Evaluate L priv (Encode L ?input)"
  let ?pf = "\<lparr>Input = Some ?input, VrfHash = fst ?e, VrfProof = snd ?e, Pubkey = PubKeyBytes L priv\<rparr>"
  let ?hash = "hash2 L (bytes_of (Sprintf_x_d_d (fst ?e) (sint (word_of_nat i :: goint)) (sint (0 :: goint))))"
  let ?sh = "\<lparr>Hash = ?hash, Index = word_of_nat i, Num = ucast (0 :: goint)\<rparr>"
  from sortF_Some [OF s]
  have m: "m = \<lparr>SortHash = Some ?sh, Proof = Some ?pf\<rparr>"
    and w: "overDiff ?hash (getDiff np height round) = Ret False"
    by simp_all
  have led: "sint (Index ?sh)
      < sint (queryTicketCount nv (PubKeyToAddr L (Pubkey ?pf)) (verifySort_snapshot L height))"
    using assms(4) m by simp
  have vrf: "vrfVerify L (Pubkey ?pf)
      (Encode L \<lparr>Seed = seed, Height = height, Round = Round ?input, Ty = ucast ty\<rparr>)
      (VrfProof ?pf) (VrfHash ?pf) = None"
    using vrf_correct_vrfVerify [OF assms(3), of priv "Encode L ?input"] by simp
  have "verifySort_checks L nv height ty seed (Some \<lparr>SortHash = Some ?sh, Proof = Some ?pf\<rparr>)
      = (if hash2 L (bytes_of (Sprintf_x_d_d (VrfHash ?pf) (sint (Index ?sh)) (sint (Num ?sh))))
            \<noteq> Hash ?sh
         then Ret (Some (Errorf ''sort hash error''))
         else case overDiff (Hash ?sh) (getDiff nv height (scast (Round ?input))) of
                Panic \<Rightarrow> Panic
              | Ret True \<Rightarrow> Ret (Some errDiff)
              | Ret False \<Rightarrow> Ret None)"
    using led vrf by (intro verifySort_checks_stages) simp_all
  then have "verifySort_checks L nv height ty seed (Some \<lparr>SortHash = Some ?sh, Proof = Some ?pf\<rparr>)
      = Ret None"
    using w assms(5) by simp
  then show ?thesis using above m by (simp add: verifySort_above)
qed

theorem sortition_round_trip_witness:
  "committeeSort demo_lib demo_node [1] 20 0 0 [demo_msg 1, demo_msg 0]
   \<and> demo_msg 0 \<in> set [demo_msg 1, demo_msg 0]
   \<and> vrf_correct demo_lib
   \<and> sint (Index \<lparr>Hash = [1], Index = 0, Num = 0\<rparr>) + 1
       \<le> sint (queryTicketCount demo_node (PubKeyToAddr demo_lib (Pubkey demo_proof))
           (verifySort_snapshot demo_lib 20))
   \<and> getDiff demo_node 20 (scast (ucast (0 :: goint) :: int32)) = getDiff demo_node 20 0
   \<and> verifySort demo_lib demo_node 20 0 [1] (Some (demo_msg 0)) = Ret None"
proof -
  have m: "demo_msg 0 \<in> set [demo_msg 1, demo_msg 0]" by simp
  have l: "\<forall>sh pf. SortHash (demo_msg 0) = Some sh \<and> Proof (demo_msg 0) = Some pf \<longrightarrow>
      sint (Index sh) + 1
        \<le> sint (queryTicketCount demo_node (PubKeyToAddr demo_lib (Pubkey pf))
            (verifySort_snapshot demo_lib 20))"
    by (simp add: demo_msg_def demo_count)
  have g: "getDiff demo_node 20 (scast (ucast (0 :: goint) :: int32)) = getDiff demo_node 20 0"
    by simp
  have "verifySort demo_lib demo_node 20 0 [1] (Some (demo_msg 0)) = Ret None"
    using demo_committeeSort m demo_vrf_correct l g by (rule sortition_round_trip)
  then show ?thesis
    using demo_committeeSort m demo_vrf_correct g by (simp add: demo_count)
qed

text \<open>
  C2, as stated, fails. The 32-byte hash \<open>01 00 ... 00\<close> read big-endian is \<open>2 ^ 248\<close>, so its
  ratio \<open>1/256\<close> is above the difficulty \<open>1/512\<close>; the threshold test succeeds on it all the
  same, because \<open>difficulty.HashToBig\<close> reads the hash least significant byte first.
\<close>

theorem threshold_big_endian_counterexample:
  "length hash_one_first = 32
   \<and> overDiff hash_one_first (Finite64 (1 / 512)) = Ret False
   \<and> \<not> ratio_le (of_int (be_int hash_one_first) / 2 ^ 256) (Finite64 (1 / 512))"
  by (simp add: win_iff_ratio_le HashToBig_le_int hash_one_first_def be_int_def)

text \<open>
  C2, amended. For every ticket hash \<open>h\<close> and every difficulty \<open>diff\<close>, the threshold test
  succeeds if and only if the exact rational \<open>y / 2 ^ 256\<close> is at most \<open>diff\<close>, where \<open>y\<close> is
  \<open>h\<close> read as an unsigned little-endian integer over its full width: the \<open>big.Float\<close>
  computation decides the arbitrary-precision comparison. \<open>sortF\<close> returns a message
  exactly when the test succeeds on its ticket hash.
\<close>

theorem threshold_is_exact_ratio_test:
  "(overDiff h diff = Ret False) = ratio_le (of_int (le_int h) / 2 ^ 256) diff
   \<and> (\<exists>m. sortF L vrfHash index num diff hp = Ret (Some m))
       = ratio_le (of_int (le_int (hash2 L (bytes_of
           (Sprintf_x_d_d vrfHash (sint index) (sint num))))) / 2 ^ 256) diff"
proof
  show "(overDiff h diff = Ret False) = ratio_le (of_int (le_int h) / 2 ^ 256) diff"
    by (simp only: win_iff_ratio_le HashToBig_le_int)
next
  let ?h = "hash2 L (bytes_of (Sprintf_x_d_d vrfHash (sint index) (sint num)))"
  have "(\<exists>m. sortF L vrfHash index num diff hp = Ret (Some m)) = (overDiff ?h diff = Ret False)"
    by (auto simp add: sortF_def Let_def split: outcome.splits bool.splits)
  then show "(\<exists>m. sortF L vrfHash index num diff hp = Ret (Some m))
       = ratio_le (of_int (le_int ?h) / 2 ^ 256) diff"
    by (simp only: win_iff_ratio_le HashToBig_le_int)
qed

theorem threshold_is_exact_ratio_test_witness:
  "overDiff hash_one_first (Finite64 (1 / 512)) = Ret False
   \<and> ratio_le (of_int (le_int hash_one_first) / 2 ^ 256) (Finite64 (1 / 512))
   \<and> overDiff hash_one_last (Finite64 (1 / 512)) \<noteq> Ret False
   \<and> \<not> ratio_le (of_int (le_int hash_one_last) / 2 ^ 256) (Finite64 (1 / 512))
   \<and> overDiff hash_one_last (Finite64 (1 / 256)) = Ret False
   \<and> overDiff hash_one_first NaN64 \<noteq> Ret False
   \<and> (\<exists>m. sortF demo_lib [1, 20, 0, 0, 7] 1 0 (Finite64 (1 / 2)) (Some demo_proof) = Ret (Some m))"
proof -
  have a: "ratio_le (of_int (le_int hash_one_first) / 2 ^ 256) (Finite64 (1 / 512))"
    by (simp add: hash_one_first_def)
  have b: "\<not> ratio_le (of_int (le_int hash_one_last) / 2 ^ 256) (Finite64 (1 / 512))"
    by (simp add: hash_one_last_def)
  have c: "ratio_le (of_int (le_int hash_one_last) / 2 ^ 256) (Finite64 (1 / 256))"
    by (simp add: hash_one_last_def)
  have d: "\<not> ratio_le (of_int (le_int hash_one_first) / 2 ^ 256) NaN64"
    by simp
  have e: "ratio_le (of_int (le_int (hash2 demo_lib (bytes_of
      (Sprintf_x_d_d [1, 20, 0, 0, 7] (sint (1 :: goint)) (sint (0 :: goint)))))) / 2 ^ 256)
      (Finite64 (1 / 2))"
    by (simp add: demo_hash2)
  show ?thesis
    using a b c d e
      threshold_is_exact_ratio_test [THEN conjunct1, of hash_one_first "Finite64 (1 / 512)"]
      threshold_is_exact_ratio_test [THEN conjunct1, of hash_one_last "Finite64 (1 / 512)"]
      threshold_is_exact_ratio_test [THEN conjunct1, of hash_one_last "Finite64 (1 / 256)"]
      threshold_is_exact_ratio_test [THEN conjunct1, of hash_one_first NaN64]
      threshold_is_exact_ratio_test [THEN conjunct2,
        of demo_lib "[1, 20, 0, 0, 7]" 1 0 "Finite64 (1 / 2)" "Some demo_proof"]
    by blast
qed

text \<open>
  C3. The hash in a message of \<open>sortF\<close>, and the hash \<open>verifySort\<close> requires of a message it
  accepts, is SHA-256 applied twice to the UTF-8 bytes of the text made of the VRF hash in
  hexadecimal, \<open>+\<close>, the index in decimal, \<open>+\<close> and the num in decimal. The hexadecimal
  text is lowercase, two digits per byte, and reads back as the VRF hash; each decimal
  text is canonical and reads back as its number.
\<close>

theorem ticket_hash_construction:
  "(sortF L vrfHash index num diff hp = Ret (Some m) \<longrightarrow>
      (\<exists>sh. SortHash m = Some sh
        \<and> Hash sh = Sha256 L (Sha256 L (utf8
            (fmt_x vrfHash @ ''+'' @ fmt_d (sint index) @ ''+'' @ fmt_d (sint num))))))
   \<and> (sint (Pos33SortBlocks L) < sint height
        \<and> verifySort L n height ty seed (Some \<lparr>SortHash = Some sh', Proof = Some pf\<rparr>) = Ret None
      \<longrightarrow> Hash sh' = Sha256 L (Sha256 L (utf8
            (fmt_x (VrfHash pf) @ ''+'' @ fmt_d (sint (Index sh')) @ ''+'' @ fmt_d (sint (Num sh'))))))
   \<and> set (fmt_x vrfHash) \<subseteq> set ''0123456789abcdef''
   \<and> length (fmt_x vrfHash) = 2 * length vrfHash
   \<and> unhex (fmt_x vrfHash) = Some vrfHash
   \<and> read_dec (fmt_d i) = Some i
   \<and> canonical_dec (fmt_d i)"
proof (intro conjI impI)
  assume "sortF L vrfHash index num diff hp = Ret (Some m)"
  from sortF_Some [OF this]
  have "\<exists>sh. SortHash m = Some sh
        \<and> Hash sh = Sha256 L (Sha256 L (bytes_of (Sprintf_x_d_d vrfHash (sint index) (sint num))))"
    by (simp add: hash2_def)
  then have "\<exists>sh. SortHash m = Some sh
        \<and> Hash sh = Sha256 L (Sha256 L (utf8 (Sprintf_x_d_d vrfHash (sint index) (sint num))))"
    by (simp only: utf8_Sprintf)
  then show "\<exists>sh. SortHash m = Some sh
        \<and> Hash sh = Sha256 L (Sha256 L (utf8
            (fmt_x vrfHash @ ''+'' @ fmt_d (sint index) @ ''+'' @ fmt_d (sint num))))"
    by (simp only: Sprintf_x_d_d_def)
next
  assume a: "sint (Pos33SortBlocks L) < sint height
        \<and> verifySort L n height ty seed (Some \<lparr>SortHash = Some sh', Proof = Some pf\<rparr>) = Ret None"
  then have h: "sint (Pos33SortBlocks L) < sint height" by simp
  have "verifySort_checks L n height ty seed (Some \<lparr>SortHash = Some sh', Proof = Some pf\<rparr>)
      = Ret None"
    using a verifySort_above [OF h, of n ty seed] by simp
  from verifySort_checks_accepted [OF this]
  have "Hash sh' = Sha256 L (Sha256 L (bytes_of
      (Sprintf_x_d_d (VrfHash pf) (sint (Index sh')) (sint (Num sh')))))"
    by (auto simp add: hash2_def)
  then have "Hash sh' = Sha256 L (Sha256 L (utf8
      (Sprintf_x_d_d (VrfHash pf) (sint (Index sh')) (sint (Num sh')))))"
    by (simp only: utf8_Sprintf)
  then show "Hash sh' = Sha256 L (Sha256 L (utf8
            (fmt_x (VrfHash pf) @ ''+'' @ fmt_d (sint (Index sh')) @ ''+'' @ fmt_d (sint (Num sh')))))"
    by (simp only: Sprintf_x_d_d_def)
next
  show "set (fmt_x vrfHash) \<subseteq> set ''0123456789abcdef''" by (rule fmt_x_lower_hex)
next
  show "length (fmt_x vrfHash) = 2 * length vrfHash" by (rule length_fmt_x)
next
  show "unhex (fmt_x vrfHash) = Some vrfHash" by (rule unhex_fmt_x)
next
  show "read_dec (fmt_d i) = Some i" by (rule read_dec_fmt_d)
next
  show "canonical_dec (fmt_d i)" by (rule canonical_dec_fmt_d)
qed

theorem ticket_hash_construction_witness:
  "sortF echo_lib [0xab, 0x01, 0xff] 5 (- 12) (Finite64 (1 / 2)) None
     = Ret (Some \<lparr>SortHash = Some \<lparr>Hash = [97, 98, 48, 49, 102, 102, 43, 53, 43, 45, 49, 50],
                                     Index = 5, Num = - 12\<rparr>,
                  Proof = None\<rparr>)
   \<and> fmt_x [0xab, 0x01, 0xff] @ ''+'' @ fmt_d (sint (5 :: goint)) @ ''+'' @ fmt_d (sint (- 12 :: goint))
       = ''ab01ff+5+-12''
   \<and> utf8 ''ab01ff+5+-12'' = [97, 98, 48, 49, 102, 102, 43, 53, 43, 45, 49, 50]
   \<and> [97, 98, 48, 49, 102, 102, 43, 53, 43, 45, 49, 50]
       = Sha256 echo_lib (Sha256 echo_lib (utf8 ''ab01ff+5+-12''))
   \<and> sint (Pos33SortBlocks echo_lib) < sint (20 :: int64)
   \<and> verifySort echo_lib demo_node 20 0 [1]
       (Some \<lparr>SortHash = Some \<lparr>Hash = [48, 49, 49, 52, 48, 48, 48, 48, 48, 55, 43, 49, 43, 48],
                                 Index = 1, Num = 0\<rparr>,
              Proof = Some demo_proof\<rparr>) = Ret None
   \<and> [48, 49, 49, 52, 48, 48, 48, 48, 48, 55, 43, 49, 43, 48]
       = Sha256 echo_lib (Sha256 echo_lib (utf8 ''0114000007+1+0''))
   \<and> unhex ''ab01ff'' = Some [0xab, 0x01, 0xff]
   \<and> read_dec ''-12'' = Some (- 12) \<and> canonical_dec ''-12''
   \<and> read_dec ''5'' = Some 5 \<and> canonical_dec ''5''"
proof -
  let ?m = "\<lparr>SortHash = Some \<lparr>Hash = [97, 98, 48, 49, 102, 102, 43, 53, 43, 45, 49, 50],
                                Index = 5, Num = - 12\<rparr>, Proof = None\<rparr> :: Pos33SortMsg"
  let ?sh = "\<lparr>Hash = [48, 49, 49, 52, 48, 48, 48, 48, 48, 55, 43, 49, 43, 48],
              Index = 1, Num = 0\<rparr> :: SortHash"
  have f: "fmt_x [0xab, 0x01, 0xff] @ ''+'' @ fmt_d (sint (5 :: goint)) @ ''+''
      @ fmt_d (sint (- 12 :: goint)) = ''ab01ff+5+-12''"
    by (simp add: fmt_x_def fmt_d_def hexdigit_def)
  have f': "fmt_x (VrfHash demo_proof) @ ''+'' @ fmt_d (sint (Index ?sh)) @ ''+''
      @ fmt_d (sint (Num ?sh)) = ''0114000007+1+0''"
    by (simp add: demo_proof_def fmt_x_def fmt_d_def hexdigit_def)
  have x: "fmt_x [0xab, 0x01, 0xff] = ''ab01ff''"
    by (simp add: fmt_x_def hexdigit_def)
  have d: "fmt_d (- 12) = ''-12''" "fmt_d 5 = ''5''"
    by (simp_all add: fmt_d_def)
  have u: "utf8 ''ab01ff+5+-12'' = [97, 98, 48, 49, 102, 102, 43, 53, 43, 45, 49, 50]"
    by (simp add: utf8_def utf8_char_def)
  have o: "overDiff [97, 98, 48, 49, 102, 102, 43, 53, 43, 45, 49, 50] (Finite64 (1 / 2)) = Ret False"
    by (simp add: win_iff_ratio_le HashToBig_le_int)
  have h: "hash2 echo_lib (bytes_of ''ab01ff+5+-12'')
      = [97, 98, 48, 49, 102, 102, 43, 53, 43, 45, 49, 50]"
    by (simp add: hash2_def echo_lib_def bytes_of_def)
  have s: "sortF echo_lib [0xab, 0x01, 0xff] 5 (- 12) (Finite64 (1 / 2)) None = Ret (Some ?m)"
    using f by (simp add: sortF_def Sprintf_x_d_d_def h o)
  have b: "sint (Pos33SortBlocks echo_lib) < sint (20 :: int64)"
    by (simp add: echo_lib_def demo_lib_def)
  note v = echo_verifySort
  have "\<exists>sh. SortHash ?m = Some sh
        \<and> Hash sh = Sha256 echo_lib (Sha256 echo_lib (utf8
            (fmt_x [0xab, 0x01, 0xff] @ ''+'' @ fmt_d (sint (5 :: goint)) @ ''+''
              @ fmt_d (sint (- 12 :: goint)))))"
    using s ticket_hash_construction
      [of echo_lib "[0xab, 0x01, 0xff]" 5 "- 12" "Finite64 (1 / 2)" None ?m]
    by blast
  then have p: "[97, 98, 48, 49, 102, 102, 43, 53, 43, 45, 49, 50]
      = Sha256 echo_lib (Sha256 echo_lib (utf8 ''ab01ff+5+-12''))"
    by (simp only: f) simp
  have "Hash ?sh = Sha256 echo_lib (Sha256 echo_lib (utf8
      (fmt_x (VrfHash demo_proof) @ ''+'' @ fmt_d (sint (Index ?sh)) @ ''+''
        @ fmt_d (sint (Num ?sh)))))"
    using b v ticket_hash_construction
      [of echo_lib _ _ _ _ _ _ 20 demo_node 0 "[1]" ?sh demo_proof]
    by blast
  then have q: "[48, 49, 49, 52, 48, 48, 48, 48, 48, 55, 43, 49, 43, 48]
      = Sha256 echo_lib (Sha256 echo_lib (utf8 ''0114000007+1+0''))"
    by (simp only: f') simp
  have r: "unhex ''ab01ff'' = Some [0xab, 0x01, 0xff]"
    using ticket_hash_construction [of _ "[0xab, 0x01, 0xff]"] by (simp only: x)
  have t1: "read_dec ''-12'' = Some (- 12) \<and> canonical_dec ''-12''"
    using ticket_hash_construction [where i = "- 12"] by (simp only: d)
  have t2: "read_dec ''5'' = Some 5 \<and> canonical_dec ''5''"
    using ticket_hash_construction [where i = 5] by (simp only: d)
  show ?thesis using f s u p b v q r t1 t2 by blast
qed




text \<open>
  C6. Above the bootstrap height, a structurally complete message whose
  \<open>SortHash.Index\<close> is at least the ticket count the ledger reports, at the verifier's
  snapshot height, for the address of \<open>Proof.Pubkey\<close> is rejected, with the error of the
  ownership check.
\<close>

theorem verifier_rejects_unowned_index:
  assumes "sint (Pos33SortBlocks L) < sint height"
    and "Input pf = Some inp"
    and "sint (queryTicketCount n (PubKeyToAddr L (Pubkey pf)) (verifySort_snapshot L height))
           \<le> sint (Index sh)"
  shows "verifySort L n height ty seed (Some \<lparr>SortHash = Some sh, Proof = Some pf\<rparr>)
    = Ret (Some (Errorf (''sort index '' @ fmt_d (sint (Index sh)) @ '' > ''
        @ fmt_d (sint (queryTicketCount n (PubKeyToAddr L (Pubkey pf)) (verifySort_snapshot L height)))
        @ '' your count, height '' @ fmt_d (sint height))))"
  using assms by (simp add: verifySort_above verifySort_checks_def Let_def)

theorem verifier_rejects_unowned_index_witness:
  "sint (Pos33SortBlocks demo_lib) < sint (20 :: int64)
   \<and> Input demo_proof = Some demo_input
   \<and> sint (queryTicketCount demo_node (PubKeyToAddr demo_lib (Pubkey demo_proof))
         (verifySort_snapshot demo_lib 20)) \<le> sint (Index \<lparr>Hash = [1], Index = 2, Num = 0\<rparr>)
   \<and> verifySort demo_lib demo_node 20 0 [1] (Some (demo_msg 2))
       = Ret (Some (Errorf ''sort index 2 > 2 your count, height 20''))"
proof -
  have a: "sint (Pos33SortBlocks demo_lib) < sint (20 :: int64)"
    by (simp add: demo_lib_def)
  have b: "Input demo_proof = Some demo_input" by (simp add: demo_proof_def)
  have c: "sint (queryTicketCount demo_node (PubKeyToAddr demo_lib (Pubkey demo_proof))
         (verifySort_snapshot demo_lib 20)) \<le> sint (Index \<lparr>Hash = [1], Index = 2, Num = 0\<rparr>)"
    by (simp add: demo_node_def)
  show ?thesis
    using a b c verifier_rejects_unowned_index [OF a b c, of 0 "[1]"]
    by (simp add: demo_msg_def demo_node_def fmt_d_def)
qed

text \<open>
  C7. The configured minimum height is \<open>Pos33SortBlocks + 1\<close>. At every height below it
  \<open>verifySort\<close> accepts whatever message it is given (nil included) without a check. At
  every other height it rejects a nil message, and it accepts a message exactly when the
  message is structurally complete and passes the ownership check, the three context
  checks, the VRF check, the hash comparison and the threshold test.
\<close>

theorem bootstrap_carve_out:
  "(sint height < sint (Pos33SortBlocks L) + 1 \<longrightarrow> verifySort L n height ty seed m = Ret None)
   \<and> (\<not> sint height < sint (Pos33SortBlocks L) + 1 \<longrightarrow>
        verifySort L n height ty seed None
            = Ret (Some (Errorf ''verifySort error: sort msg is nil''))
        \<and> (verifySort L n height ty seed m = Ret None)
            = (\<exists>sh pf inp pubKey.
                 m = Some \<lparr>SortHash = Some sh, Proof = Some pf\<rparr>
                 \<and> Input pf = Some inp
                 \<and> sint (Index sh) < sint (queryTicketCount n (PubKeyToAddr L (Pubkey pf))
                      (height - Pos33SortBlocks L))
                 \<and> Height inp = height \<and> Seed inp = seed \<and> Ty inp = ucast ty
                 \<and> ParsePubKey L (Pubkey pf) = Some pubKey
                 \<and> ProofToHash L pubKey
                      (Encode L \<lparr>Seed = seed, Height = height, Round = Round inp, Ty = ucast ty\<rparr>)
                      (VrfProof pf) = Some (VrfHash pf)
                 \<and> Hash sh = Sha256 L (Sha256 L (bytes_of
                      (Sprintf_x_d_d (VrfHash pf) (sint (Index sh)) (sint (Num sh)))))
                 \<and> ratio_le (of_int (HashToBig (Hash sh)) / 2 ^ 256)
                      (getDiff n height (scast (Round inp)))))"
proof (intro conjI impI)
  assume "sint height < sint (Pos33SortBlocks L) + 1"
  then show "verifySort L n height ty seed m = Ret None" by (simp add: verifySort_def)
next
  assume "\<not> sint height < sint (Pos33SortBlocks L) + 1"
  then show "verifySort L n height ty seed None
      = Ret (Some (Errorf ''verifySort error: sort msg is nil''))"
    by (simp add: verifySort_def verifySort_checks_def)
next
  assume "\<not> sint height < sint (Pos33SortBlocks L) + 1"
  then have above: "sint (Pos33SortBlocks L) < sint height" by simp
  let ?R = "\<lambda>sh pf inp pubKey.
       m = Some \<lparr>SortHash = Some sh, Proof = Some pf\<rparr>
       \<and> Input pf = Some inp
       \<and> sint (Index sh) < sint (queryTicketCount n (PubKeyToAddr L (Pubkey pf))
            (height - Pos33SortBlocks L))
       \<and> Height inp = height \<and> Seed inp = seed \<and> Ty inp = ucast ty
       \<and> ParsePubKey L (Pubkey pf) = Some pubKey
       \<and> ProofToHash L pubKey
            (Encode L \<lparr>Seed = seed, Height = height, Round = Round inp, Ty = ucast ty\<rparr>)
            (VrfProof pf) = Some (VrfHash pf)
       \<and> Hash sh = Sha256 L (Sha256 L (bytes_of
            (Sprintf_x_d_d (VrfHash pf) (sint (Index sh)) (sint (Num sh)))))
       \<and> ratio_le (of_int (HashToBig (Hash sh)) / 2 ^ 256)
            (getDiff n height (scast (Round inp)))"
  show "(verifySort L n height ty seed m = Ret None) = (\<exists>sh pf inp pubKey. ?R sh pf inp pubKey)"
  proof
    assume acc: "verifySort L n height ty seed m = Ret None"
    then have c: "verifySort_checks L n height ty seed m = Ret None"
      using verifySort_above [OF above, of n ty seed m] by simp
    then obtain msg where m: "m = Some msg"
      by (cases m) (simp_all add: verifySort_checks_def)
    obtain pf where pf: "Proof msg = Some pf"
      using c m by (cases "Proof msg") (simp_all add: verifySort_checks_def)
    obtain sh where sh: "SortHash msg = Some sh"
      using c m pf by (cases "SortHash msg") (simp_all add: verifySort_checks_def)
    have msg: "msg = \<lparr>SortHash = Some sh, Proof = Some pf\<rparr>"
      using pf sh by (cases msg) simp
    have "verifySort_checks L n height ty seed (Some \<lparr>SortHash = Some sh, Proof = Some pf\<rparr>)
        = Ret None"
      using c m msg by simp
    from verifySort_checks_accepted [OF this]
    obtain inp where inp: "Input pf = Some inp"
      and idx: "sint (Index sh) < sint (queryTicketCount n (PubKeyToAddr L (Pubkey pf))
          (verifySort_snapshot L height))"
      and ctx: "Height inp = height" "Seed inp = seed" "Ty inp = ucast ty"
      and vrf: "vrfVerify L (Pubkey pf)
          (Encode L \<lparr>Seed = seed, Height = height, Round = Round inp, Ty = ucast ty\<rparr>)
          (VrfProof pf) (VrfHash pf) = None"
      and hash: "Hash sh = hash2 L (bytes_of
          (Sprintf_x_d_d (VrfHash pf) (sint (Index sh)) (sint (Num sh))))"
      and win: "overDiff (Hash sh) (getDiff n height (scast (Round inp))) = Ret False"
      by blast
    from vrf obtain pubKey where pk: "ParsePubKey L (Pubkey pf) = Some pubKey"
      "ProofToHash L pubKey
          (Encode L \<lparr>Seed = seed, Height = height, Round = Round inp, Ty = ucast ty\<rparr>)
          (VrfProof pf) = Some (VrfHash pf)"
      by (auto simp add: vrfVerify_None_iff)
    have r: "ratio_le (of_int (HashToBig (Hash sh)) / 2 ^ 256)
        (getDiff n height (scast (Round inp)))"
      using win by (simp only: win_iff_ratio_le)
    have "?R sh pf inp pubKey"
      using m msg inp idx ctx pk hash r by (simp add: verifySort_snapshot_def hash2_def)
    then show "\<exists>sh pf inp pubKey. ?R sh pf inp pubKey" by blast
  next
    assume "\<exists>sh pf inp pubKey. ?R sh pf inp pubKey"
    then obtain sh pf inp pubKey where R: "?R sh pf inp pubKey" by blast
    have vrf: "vrfVerify L (Pubkey pf)
          (Encode L \<lparr>Seed = seed, Height = height, Round = Round inp, Ty = ucast ty\<rparr>)
          (VrfProof pf) (VrfHash pf) = None"
      using R by (simp add: vrfVerify_None_iff)
    have "ratio_le (of_int (HashToBig (Hash sh)) / 2 ^ 256)
        (getDiff n height (scast (Round inp)))"
      using R by blast
    then have win: "overDiff (Hash sh) (getDiff n height (scast (Round inp))) = Ret False"
      by (simp only: win_iff_ratio_le)
    have inp: "Input pf = Some inp" using R by blast
    have "sint (Index sh) < sint (queryTicketCount n (PubKeyToAddr L (Pubkey pf))
          (height - Pos33SortBlocks L))"
      using R by blast
    then have idx: "sint (Index sh) < sint (queryTicketCount n (PubKeyToAddr L (Pubkey pf))
          (verifySort_snapshot L height))"
      by (simp only: verifySort_snapshot_def)
    have ctx: "Height inp = height" "Seed inp = seed" "Ty inp = ucast ty"
      using R by blast+
    have "Hash sh = Sha256 L (Sha256 L (bytes_of
        (Sprintf_x_d_d (VrfHash pf) (sint (Index sh)) (sint (Num sh)))))"
      using R by blast
    then have hash: "hash2 L (bytes_of
        (Sprintf_x_d_d (VrfHash pf) (sint (Index sh)) (sint (Num sh)))) = Hash sh"
      by (simp only: hash2_def)
    have "verifySort_checks L n height ty seed (Some \<lparr>SortHash = Some sh, Proof = Some pf\<rparr>)
        = Ret None"
      by (simp only: verifySort_checks_stages [OF inp idx ctx vrf] hash win) simp
    then show "verifySort L n height ty seed m = Ret None"
      using R verifySort_above [OF above, of n ty seed m] by simp
  qed
qed


theorem bootstrap_carve_out_witness:
  "sint (10 :: int64) < sint (Pos33SortBlocks demo_lib) + 1
   \<and> verifySort demo_lib demo_node 10 0 [] None = Ret None
   \<and> verifySort demo_lib demo_node 10 0 [] (Some \<lparr>SortHash = None, Proof = None\<rparr>) = Ret None
   \<and> verifySort demo_lib demo_node 10 0 [1] (Some (demo_msg 99)) = Ret None
   \<and> \<not> sint (11 :: int64) < sint (Pos33SortBlocks demo_lib) + 1
   \<and> verifySort demo_lib demo_node 11 0 [] None
       = Ret (Some (Errorf ''verifySort error: sort msg is nil''))
   \<and> verifySort demo_lib demo_node 11 0 [] (Some \<lparr>SortHash = None, Proof = None\<rparr>) \<noteq> Ret None
   \<and> \<not> sint (20 :: int64) < sint (Pos33SortBlocks demo_lib) + 1
   \<and> verifySort demo_lib demo_node 20 0 [1] (Some (demo_msg 1)) = Ret None
   \<and> verifySort demo_lib demo_node 20 0 [1] (Some (demo_msg 2)) \<noteq> Ret None
   \<and> verifySort demo_lib demo_node 20 0 [2] (Some (demo_msg 1)) \<noteq> Ret None
   \<and> verifySort demo_lib demo_node 20 0 [1]
        (Some \<lparr>SortHash = Some \<lparr>Hash = [2], Index = 1, Num = 0\<rparr>, Proof = Some demo_proof\<rparr>)
        \<noteq> Ret None
   \<and> verifySort demo_lib (demo_node\<lparr>getDiff := \<lambda>h r. Finite64 0\<rparr>) 20 0 [1]
        (Some (demo_msg 1)) \<noteq> Ret None"
proof -
  have a: "sint (10 :: int64) < sint (Pos33SortBlocks demo_lib) + 1"
    by (simp add: demo_lib_def)
  have b: "\<not> sint (11 :: int64) < sint (Pos33SortBlocks demo_lib) + 1"
    by (simp add: demo_lib_def)
  have c: "\<not> sint (20 :: int64) < sint (Pos33SortBlocks demo_lib) + 1"
    by (simp add: demo_lib_def)
  have a1: "verifySort demo_lib demo_node 10 0 [] None = Ret None"
    using a bootstrap_carve_out [of 10 demo_lib demo_node 0 "[]" None] by blast
  have a2: "verifySort demo_lib demo_node 10 0 [] (Some \<lparr>SortHash = None, Proof = None\<rparr>) = Ret None"
    using a bootstrap_carve_out [of 10 demo_lib demo_node 0 "[]"
        "Some \<lparr>SortHash = None, Proof = None\<rparr>"]
    by blast
  have a3: "verifySort demo_lib demo_node 10 0 [1] (Some (demo_msg 99)) = Ret None"
    using a bootstrap_carve_out [of 10 demo_lib demo_node 0 "[1]" "Some (demo_msg 99)"] by blast
  have b1: "verifySort demo_lib demo_node 11 0 [] None
       = Ret (Some (Errorf ''verifySort error: sort msg is nil''))"
    using b bootstrap_carve_out [of 11 demo_lib demo_node 0 "[]" None] by blast
  have b2: "verifySort demo_lib demo_node 11 0 [] (Some \<lparr>SortHash = None, Proof = None\<rparr>)
      \<noteq> Ret None"
    using b bootstrap_carve_out [of 11 demo_lib demo_node 0 "[]"
        "Some \<lparr>SortHash = None, Proof = None\<rparr>", THEN conjunct2]
    by simp
  have c1: "verifySort demo_lib demo_node 20 0 [1] (Some (demo_msg 1)) = Ret None"
  proof -
    have "demo_msg 1 = \<lparr>SortHash = Some \<lparr>Hash = [1], Index = 1, Num = 0\<rparr>, Proof = Some demo_proof\<rparr>
      \<and> Input demo_proof = Some demo_input
      \<and> sint (1 :: int64) < sint (queryTicketCount demo_node
           (PubKeyToAddr demo_lib (Pubkey demo_proof)) (20 - Pos33SortBlocks demo_lib))
      \<and> Height demo_input = 20 \<and> Seed demo_input = [1] \<and> Ty demo_input = ucast (0 :: goint)
      \<and> ParsePubKey demo_lib (Pubkey demo_proof) = Some (7, 0)
      \<and> ProofToHash demo_lib (7, 0)
           (Encode demo_lib \<lparr>Seed = [1], Height = 20, Round = Round demo_input, Ty = ucast (0 :: goint)\<rparr>)
           (VrfProof demo_proof) = Some (VrfHash demo_proof)
      \<and> [1] = Sha256 demo_lib (Sha256 demo_lib (bytes_of
           (Sprintf_x_d_d (VrfHash demo_proof) (sint (1 :: int64)) (sint (0 :: int32)))))
      \<and> ratio_le (of_int (HashToBig [1]) / 2 ^ 256)
           (getDiff demo_node 20 (scast (Round demo_input)))"
      by (simp add: demo_msg_def demo_proof_def demo_input_def demo_node_def demo_lib_def
          be_int_def HashToBig_def)
    then show ?thesis
      using c bootstrap_carve_out [of 20 demo_lib demo_node 0 "[1]" "Some (demo_msg 1)",
          THEN conjunct2]
      by force
  qed
  have c2: "verifySort demo_lib demo_node 20 0 [1] (Some (demo_msg 2)) \<noteq> Ret None"
    using c bootstrap_carve_out [of 20 demo_lib demo_node 0 "[1]" "Some (demo_msg 2)",
        THEN conjunct2]
    by (simp add: demo_msg_def demo_node_def)
  have c3: "verifySort demo_lib demo_node 20 0 [2] (Some (demo_msg 1)) \<noteq> Ret None"
    using c bootstrap_carve_out [of 20 demo_lib demo_node 0 "[2]" "Some (demo_msg 1)",
        THEN conjunct2]
    by (simp add: demo_msg_def demo_proof_def demo_input_def)
  have c4: "verifySort demo_lib demo_node 20 0 [1]
        (Some \<lparr>SortHash = Some \<lparr>Hash = [2], Index = 1, Num = 0\<rparr>, Proof = Some demo_proof\<rparr>)
        \<noteq> Ret None"
    using c bootstrap_carve_out [of 20 demo_lib demo_node 0 "[1]"
        "Some \<lparr>SortHash = Some \<lparr>Hash = [2], Index = 1, Num = 0\<rparr>, Proof = Some demo_proof\<rparr>",
        THEN conjunct2]
    by (simp add: demo_lib_def)
  have c5: "verifySort demo_lib (demo_node\<lparr>getDiff := \<lambda>h r. Finite64 0\<rparr>) 20 0 [1]
        (Some (demo_msg 1)) \<noteq> Ret None"
    using c bootstrap_carve_out [of 20 demo_lib "demo_node\<lparr>getDiff := \<lambda>h r. Finite64 0\<rparr>" 0 "[1]"
        "Some (demo_msg 1)", THEN conjunct2]
    by (simp add: demo_msg_def HashToBig_def be_int_def)
  show ?thesis using a b c a1 a2 a3 b1 b2 c1 c2 c3 c4 c5 by blast
qed

text \<open>
  C8. \<open>verifySort\<close> never compares \<open>SortHash.Num\<close> with 0 or with \<open>ty\<close>: for every \<open>num\<close>,
  a message whose hash was computed over \<open>(VrfHash, Index, num)\<close> and that passes the
  checks before the hash comparison is judged by the threshold test of that hash alone,
  and no such message ever gets the error of the hash comparison; the producer,
  \<open>committeeSort\<close>, only emits \<open>Num = 0\<close>.
\<close>

theorem num_is_free_in_verifySort:
  fixes round :: goint
  shows "(Input pf = Some inp \<and> sint (Pos33SortBlocks L) < sint height
       \<and> sint idx < sint (queryTicketCount n (PubKeyToAddr L (Pubkey pf)) (verifySort_snapshot L height))
       \<and> Height inp = height \<and> Seed inp = seed \<and> Ty inp = ucast ty
       \<and> vrfVerify L (Pubkey pf)
            (Encode L \<lparr>Seed = seed, Height = height, Round = Round inp, Ty = ucast ty\<rparr>)
            (VrfProof pf) (VrfHash pf) = None
      \<longrightarrow> verifySort L n height ty seed
            (Some \<lparr>SortHash = Some \<lparr>Hash = hash2 L (bytes_of
                      (Sprintf_x_d_d (VrfHash pf) (sint idx) (sint num))), Index = idx, Num = num\<rparr>,
                   Proof = Some pf\<rparr>)
          = (case overDiff (hash2 L (bytes_of (Sprintf_x_d_d (VrfHash pf) (sint idx) (sint num))))
                    (getDiff n height (scast (Round inp))) of
               Panic \<Rightarrow> Panic
             | Ret True \<Rightarrow> Ret (Some errDiff)
             | Ret False \<Rightarrow> Ret None))
    \<and> verifySort L n height ty seed
          (Some \<lparr>SortHash = Some \<lparr>Hash = hash2 L (bytes_of
                    (Sprintf_x_d_d (VrfHash pf) (sint idx) (sint num))), Index = idx, Num = num\<rparr>,
                 Proof = Some pf\<rparr>)
        \<noteq> Ret (Some (Errorf ''sort hash error''))
    \<and> (committeeSort L np seed' height' round ty' msgs \<and> m \<in> set msgs
        \<longrightarrow> (\<exists>sh. SortHash m = Some sh \<and> Num sh = 0))"
proof (intro conjI impI)
  let ?sh = "\<lparr>Hash = hash2 L (bytes_of (Sprintf_x_d_d (VrfHash pf) (sint idx) (sint num))),
      Index = idx, Num = num\<rparr>"
  assume a: "Input pf = Some inp \<and> sint (Pos33SortBlocks L) < sint height
       \<and> sint idx < sint (queryTicketCount n (PubKeyToAddr L (Pubkey pf)) (verifySort_snapshot L height))
       \<and> Height inp = height \<and> Seed inp = seed \<and> Ty inp = ucast ty
       \<and> vrfVerify L (Pubkey pf)
            (Encode L \<lparr>Seed = seed, Height = height, Round = Round inp, Ty = ucast ty\<rparr>)
            (VrfProof pf) (VrfHash pf) = None"
  then have "verifySort_checks L n height ty seed (Some \<lparr>SortHash = Some ?sh, Proof = Some pf\<rparr>)
      = (if hash2 L (bytes_of (Sprintf_x_d_d (VrfHash pf) (sint (Index ?sh)) (sint (Num ?sh))))
            \<noteq> Hash ?sh
         then Ret (Some (Errorf ''sort hash error''))
         else case overDiff (Hash ?sh) (getDiff n height (scast (Round inp))) of
                Panic \<Rightarrow> Panic
              | Ret True \<Rightarrow> Ret (Some errDiff)
              | Ret False \<Rightarrow> Ret None)"
    by (intro verifySort_checks_stages) simp_all
  moreover have "sint (Pos33SortBlocks L) < sint height" using a by simp
  ultimately show "verifySort L n height ty seed (Some \<lparr>SortHash = Some ?sh, Proof = Some pf\<rparr>)
      = (case overDiff (hash2 L (bytes_of (Sprintf_x_d_d (VrfHash pf) (sint idx) (sint num))))
                (getDiff n height (scast (Round inp))) of
           Panic \<Rightarrow> Panic
         | Ret True \<Rightarrow> Ret (Some errDiff)
         | Ret False \<Rightarrow> Ret None)"
    by (simp add: verifySort_above)
next
  let ?sh = "\<lparr>Hash = hash2 L (bytes_of (Sprintf_x_d_d (VrfHash pf) (sint idx) (sint num))),
      Index = idx, Num = num\<rparr>"
  have "verifySort_checks L n height ty seed (Some \<lparr>SortHash = Some ?sh, Proof = Some pf\<rparr>)
      \<noteq> Ret (Some (Errorf ''sort hash error''))"
    by (rule verifySort_checks_not_hash_error) simp
  then show "verifySort L n height ty seed (Some \<lparr>SortHash = Some ?sh, Proof = Some pf\<rparr>)
      \<noteq> Ret (Some (Errorf ''sort hash error''))"
    by (simp add: verifySort_def)
next
  assume "committeeSort L np seed' height' round ty' msgs \<and> m \<in> set msgs"
  then have "committeeSort L np seed' height' round ty' msgs" and "m \<in> set msgs" by simp_all
  from committeeSort_member [OF this] obtain v i d hp
    where "sortF L v (word_of_nat i) 0 d hp = Ret (Some m)" by blast
  from sortF_Some [OF this] show "\<exists>sh. SortHash m = Some sh \<and> Num sh = 0" by simp
qed

theorem num_is_free_in_verifySort_witness:
  "Input demo_proof = Some demo_input \<and> sint (Pos33SortBlocks demo_lib) < sint (20 :: int64)
   \<and> sint (1 :: int64) < sint (queryTicketCount demo_node (PubKeyToAddr demo_lib (Pubkey demo_proof))
         (verifySort_snapshot demo_lib 20))
   \<and> Height demo_input = 20 \<and> Seed demo_input = [1] \<and> Ty demo_input = ucast (0 :: goint)
   \<and> vrfVerify demo_lib (Pubkey demo_proof)
        (Encode demo_lib \<lparr>Seed = [1], Height = 20, Round = Round demo_input, Ty = ucast (0 :: goint)\<rparr>)
        (VrfProof demo_proof) (VrfHash demo_proof) = None
   \<and> verifySort demo_lib demo_node 20 0 [1]
        (Some \<lparr>SortHash = Some \<lparr>Hash = [1], Index = 1, Num = 5\<rparr>, Proof = Some demo_proof\<rparr>)
       = Ret None
   \<and> committeeSort demo_lib demo_node [1] 20 0 0 [demo_msg 1, demo_msg 0]
   \<and> demo_msg 1 \<in> set [demo_msg 1, demo_msg 0]
   \<and> (\<exists>sh. SortHash (demo_msg 1) = Some sh \<and> Num sh = 0)"
proof -
  have i: "Input demo_proof = Some demo_input" by (simp add: demo_proof_def)
  have c: "sint (1 :: int64) < sint (queryTicketCount demo_node
      (PubKeyToAddr demo_lib (Pubkey demo_proof)) (verifySort_snapshot demo_lib 20))"
    by (simp add: demo_count)
  have x: "Height demo_input = 20" "Seed demo_input = [1]" "Ty demo_input = ucast (0 :: goint)"
    by (simp_all add: demo_input_def)
  have v: "vrfVerify demo_lib (Pubkey demo_proof)
        (Encode demo_lib \<lparr>Seed = [1], Height = 20, Round = Round demo_input, Ty = ucast (0 :: goint)\<rparr>)
        (VrfProof demo_proof) (VrfHash demo_proof) = None"
    using demo_vrfVerify by (simp add: demo_proof_def demo_input_def)
  have "verifySort demo_lib demo_node 20 0 [1]
      (Some \<lparr>SortHash = Some \<lparr>Hash = hash2 demo_lib (bytes_of
                (Sprintf_x_d_d (VrfHash demo_proof) (sint (1 :: int64)) (sint (5 :: int32)))),
              Index = 1, Num = 5\<rparr>, Proof = Some demo_proof\<rparr>)
      = (case overDiff (hash2 demo_lib (bytes_of
                (Sprintf_x_d_d (VrfHash demo_proof) (sint (1 :: int64)) (sint (5 :: int32)))))
              (getDiff demo_node 20 (scast (Round demo_input))) of
           Panic \<Rightarrow> Panic
         | Ret True \<Rightarrow> Ret (Some errDiff)
         | Ret False \<Rightarrow> Ret None)"
    using i demo_above c x v
      num_is_free_in_verifySort [of demo_proof demo_input demo_lib 20 1 demo_node "[1]" 0 5]
    by blast
  then have r: "verifySort demo_lib demo_node 20 0 [1]
        (Some \<lparr>SortHash = Some \<lparr>Hash = [1], Index = 1, Num = 5\<rparr>, Proof = Some demo_proof\<rparr>)
       = Ret None"
    by (simp add: demo_hash2 demo_overDiff demo_node_def)
  have k: "demo_msg 1 \<in> set [demo_msg 1, demo_msg 0]" by simp
  have z: "\<exists>sh. SortHash (demo_msg 1) = Some sh \<and> Num sh = 0"
    using demo_committeeSort k
      num_is_free_in_verifySort [where L = demo_lib and np = demo_node and seed' = "[1]"
        and height' = 20 and round = 0 and ty' = 0 and msgs = "[demo_msg 1, demo_msg 0]"
        and m = "demo_msg 1"]
    by blast
  show ?thesis using i demo_above c x v r demo_committeeSort k z by blast
qed

text \<open>
  C9. Whatever list \<open>doSort\<close> returns is, up to order, the list of the non-nil results
  of \<open>sortF\<close> at the indices \<open>0 \<le> i < count\<close>, each index counted once; when the
  difficulty is not NaN (so that no worker panics) the call can return and, as long as
  its loop has not ended, can always receive one more result; and for a count of 0 it
  returns the empty list and nothing else.
\<close>

theorem doSort_collects_the_winning_draws:
  fixes count :: goint
  shows "(doSort L vrfHash count num diff hp msgs \<longrightarrow>
        mset msgs = mset (won L vrfHash num diff hp [0..<nat (sint count)]))
    \<and> (diff \<noteq> NaN64 \<longrightarrow> (\<exists>ms. doSort L vrfHash count num diff hp ms))
    \<and> (diff \<noteq> NaN64 \<and> pool L vrfHash count num diff hp sent busy got j \<and> int j < sint count
        \<longrightarrow> (\<exists>sent' busy' got'. pool L vrfHash count num diff hp sent' busy' got' (Suc j)))
    \<and> (count = 0 \<longrightarrow> doSort L vrfHash count num diff hp msgs = (msgs = []))"
  using doSort_mset [of L vrfHash count num diff hp msgs]
    doSort_returns [of diff L vrfHash count num hp]
    pool_can_receive [of L vrfHash count num diff hp sent busy got j]
    doSort_zero [of L vrfHash num diff hp msgs]
  by blast

theorem doSort_collects_the_winning_draws_witness:
  "doSort demo_lib [1, 20, 0, 0, 7] 2 0 (Finite64 (1 / 2)) (Some demo_proof) [demo_msg 1, demo_msg 0]
   \<and> mset [demo_msg 1, demo_msg 0]
     = mset (won demo_lib [1, 20, 0, 0, 7] 0 (Finite64 (1 / 2)) (Some demo_proof)
         [0..<nat (sint (2 :: goint))])
   \<and> Finite64 (1 / 2) \<noteq> NaN64
   \<and> (\<exists>ms. doSort demo_lib [1, 20, 0, 0, 7] 2 0 (Finite64 (1 / 2)) (Some demo_proof) ms)
   \<and> pool demo_lib [1, 20, 0, 0, 7] 2 0 (Finite64 (1 / 2)) (Some demo_proof) 0 [] [] 0
   \<and> int 0 < sint (2 :: goint)
   \<and> (\<exists>sent' busy' got'.
        pool demo_lib [1, 20, 0, 0, 7] 2 0 (Finite64 (1 / 2)) (Some demo_proof) sent' busy' got' (Suc 0))
   \<and> doSort demo_lib [1, 20, 0, 0, 7] 0 0 (Finite64 (1 / 2)) (Some demo_proof) []"
proof -
  have z: "doSort demo_lib [1, 20, 0, 0, 7] 0 0 (Finite64 (1 / 2)) (Some demo_proof) []"
    using doSort_collects_the_winning_draws
      [of demo_lib "[1, 20, 0, 0, 7]" 0 0 "Finite64 (1 / 2)" "Some demo_proof" "[]"]
    by simp
  have s: "pool demo_lib [1, 20, 0, 0, 7] 2 0 (Finite64 (1 / 2)) (Some demo_proof) 0 [] [] 0"
    by (rule pool.start)
  have n: "Finite64 (1 / 2) \<noteq> NaN64" and j: "int 0 < sint (2 :: goint)" by simp_all
  show ?thesis
    using demo_doSort z s n j doSort_collects_the_winning_draws
      [of demo_lib "[1, 20, 0, 0, 7]" 2 0 "Finite64 (1 / 2)" "Some demo_proof"
        "[demo_msg 1, demo_msg 0]" 0 "[]" "[]" 0]
    by blast
qed

text \<open>
  C10. When the private key provider returns nil, \<open>committeeSort\<close> returns nil and
  nothing else, whatever the ledger, the seed, the height, the round and the type are.
\<close>

theorem no_key_returns_nil:
  fixes round :: goint
  assumes "getPriv n = None"
  shows "committeeSort L n seed height round ty msgs = (msgs = [])"
  using assms by (simp add: committeeSort_def)

theorem no_key_returns_nil_witness:
  "getPriv (demo_node\<lparr>getPriv := None\<rparr>) = None
   \<and> committeeSort demo_lib (demo_node\<lparr>getPriv := None\<rparr>) [1] 20 0 0 []"
  using no_key_returns_nil [of "demo_node\<lparr>getPriv := None\<rparr>" demo_lib "[1]" 20 0 0 "[]"]
  by simp

end
